theory Spec2Isabelle
  imports Complex_Main
begin

section \<open>Python values used by the deck normaliser and the flow renderer\<close>

text \<open>
  A Python \<open>str\<close> is a sequence of Unicode code points and \<open>len\<close> counts code points.
  The sources use the non-ASCII bullet U+2022 and the Unicode-aware \<open>str.strip\<close> and
  \<open>str.split\<close>, so a string is modelled as a list of code points (natural numbers), not as
  a list of bytes.
\<close>

type_synonym pystr = "nat list"

definition ustr :: "string \<Rightarrow> pystr" where
  "ustr s = map of_char s"

definition NL :: nat where "NL = 10"
definition SP :: nat where "SP = 32"
definition HYPHEN :: nat where "HYPHEN = 45"
definition PERIOD :: nat where "PERIOD = 46"
definition BULLET :: nat where "BULLET = 8226"

text \<open>The code points for which \<open>str.isspace\<close> holds (what \<open>strip()\<close> and \<open>split()\<close> remove).\<close>

definition isspace :: "nat \<Rightarrow> bool" where
  "isspace c = ((9 \<le> c \<and> c \<le> 13) \<or> (28 \<le> c \<and> c \<le> 32) \<or> c = 133 \<or> c = 160
     \<or> c = 5760 \<or> (8192 \<le> c \<and> c \<le> 8202) \<or> c = 8232 \<or> c = 8233 \<or> c = 8239
     \<or> c = 8287 \<or> c = 12288)"

text \<open>\<open>s.strip()\<close>\<close>

definition strip :: "pystr \<Rightarrow> pystr" where
  "strip s = rev (dropWhile isspace (rev (dropWhile isspace s)))"

text \<open>\<open>s.split()\<close>: maximal runs of non-whitespace; \<open>acc\<close> is the word being read.\<close>

fun split_ws :: "pystr \<Rightarrow> pystr \<Rightarrow> pystr list" where
  "split_ws acc [] = (if acc = [] then [] else [acc])"
| "split_ws acc (c # cs) =
     (if isspace c then (if acc = [] then split_ws [] cs else acc # split_ws [] cs)
      else split_ws (acc @ [c]) cs)"

text \<open>\<open>sep.join(xs)\<close>\<close>

fun join :: "pystr \<Rightarrow> pystr list \<Rightarrow> pystr" where
  "join sep [] = []"
| "join sep [x] = x"
| "join sep (x # y # ys) = x @ sep @ join sep (y # ys)"

text \<open>\<open>s.split(c)\<close> for a one-character separator: always at least one piece.\<close>

fun split_on :: "nat \<Rightarrow> pystr \<Rightarrow> pystr list" where
  "split_on c [] = [[]]"
| "split_on c (x # xs) =
     (if x = c then [] # split_on c xs
      else (case split_on c xs of [] \<Rightarrow> [[x]] | l # ls \<Rightarrow> (x # l) # ls))"

text \<open>\<open>str(n)\<close> for a non-negative integer.\<close>

fun str_of_nat :: "nat \<Rightarrow> pystr" where
  "str_of_nat n = (if n < 10 then [48 + n] else str_of_nat (n div 10) @ [48 + n mod 10])"

datatype py_error = IndexError | KeyError | ValidationError | ZeroDivisionError | OverflowError

text \<open>
  \<open>a / b\<close> for two integers (true division). It raises \<open>ZeroDivisionError\<close> when \<open>b\<close> is
  0 and \<open>OverflowError\<close> when the quotient rounds to a double beyond the largest one, which
  is when its magnitude reaches \<open>2 ^ 1024 - 2 ^ 970\<close>; otherwise the result is the double nearest
  to the quotient. The result is kept as the exact quotient: the rounding to 53 bits is not
  modelled.
\<close>

definition float_overflows :: "rat \<Rightarrow> bool" where
  "float_overflows q = (2 ^ 1024 - 2 ^ 970 \<le> \<bar>q\<bar>)"

definition true_div :: "int \<Rightarrow> int \<Rightarrow> py_error + rat" where
  "true_div a b =
     (if b = 0 then Inl ZeroDivisionError
      else if float_overflows (of_int a / of_int b) then Inl OverflowError
      else Inr (of_int a / of_int b))"

section \<open>app/diagram/svg\_flow.py\<close>

subsection \<open>\<open>_wrap_words\<close>\<close>

text \<open>
  The loop of \<open>_wrap_words\<close> over the words, threading the closed \<open>lines\<close> and the open
  line \<open>cur\<close> (a list of words).
\<close>

fun wrap_loop :: "pystr list \<Rightarrow> pystr list \<Rightarrow> pystr list \<Rightarrow> int \<Rightarrow> pystr list \<times> pystr list" where
  "wrap_loop lines cur [] max_chars = (lines, cur)"
| "wrap_loop lines cur (w # ws) max_chars =
     (let trial = strip (join [SP] (cur @ [w])) in
      if cur \<noteq> [] \<and> int (length trial) > max_chars
      then wrap_loop (lines @ [join [SP] cur]) [w] ws max_chars
      else wrap_loop lines (cur @ [w]) ws max_chars)"

definition wrap_words :: "pystr \<Rightarrow> int \<Rightarrow> pystr list" where
  "wrap_words text max_chars =
     (let words = filter (\<lambda>w. w \<noteq> []) (split_ws [] text) in
      if words = [] then [[]]
      else (case wrap_loop [] [] words max_chars of
              (lines, cur) \<Rightarrow> take 3 (if cur \<noteq> [] then lines @ [join [SP] cur] else lines)))"

subsection \<open>The word wrap as the specification describes it\<close>

text \<open>
  The specification's greedy rule, written directly: a word joins the open line while the
  space-joined trial stays within the budget (the first word of a line is always taken);
  otherwise the open line is closed and the word starts the next one. A line is kept as its
  group of words; \<open>spec_wrap\<close> joins each group and keeps the first three lines.
\<close>

fun greedy_lines :: "pystr list \<Rightarrow> pystr list \<Rightarrow> int \<Rightarrow> pystr list list" where
  "greedy_lines cur [] budget = [cur]"
| "greedy_lines cur (w # ws) budget =
     (if cur = [] \<or> int (length (join [SP] (cur @ [w]))) \<le> budget
      then greedy_lines (cur @ [w]) ws budget
      else cur # greedy_lines [w] ws budget)"

definition spec_wrap :: "pystr \<Rightarrow> int \<Rightarrow> pystr list" where
  "spec_wrap label budget =
     (if split_ws [] label = [] then [[]]
      else take 3 (map (join [SP]) (greedy_lines [] (split_ws [] label) budget)))"

text \<open>A word as \<open>split()\<close> produces it: not empty, no whitespace at either end.\<close>

definition clean :: "pystr \<Rightarrow> bool" where
  "clean w = (w \<noteq> [] \<and> \<not> isspace (hd w) \<and> \<not> isspace (last w))"

subsection \<open>\<open>render_flow_svg\<close>\<close>

type_synonym rgb = "int \<times> int \<times> int"

record SvgFlowStyle =
  background_rgb :: rgb
  node_fill_rgb :: rgb
  node_line_rgb :: rgb
  text_rgb :: rgb
  font_family :: pystr

definition default_style :: SvgFlowStyle where
  "default_style =
     \<lparr>background_rgb = (255, 255, 255), node_fill_rgb = (234, 242, 255),
      node_line_rgb = (79, 129, 189), text_rgb = (31, 55, 94),
      font_family = ustr ''Calibri''\<rparr>"

text \<open>
  An element of \<open>edges\<close> is a tuple or a list of strings; \<open>_iter_edges\<close> keeps those of
  length two, in order.
\<close>

datatype edge_in = EdgeTuple "pystr list" | EdgeList "pystr list"

fun iter_edges :: "edge_in list \<Rightarrow> (pystr \<times> pystr) list" where
  "iter_edges [] = []"
| "iter_edges (EdgeTuple e # es) =
     (if length e = 2 then (e ! 0, e ! 1) # iter_edges es else iter_edges es)"
| "iter_edges (EdgeList e # es) =
     (if length e = 2 then (e ! 0, e ! 1) # iter_edges es else iter_edges es)"

text \<open>
  The document is the list \<open>svg\<close> of markup strings that the function joins with newlines.
  Each appended string is kept as one element that carries the values interpolated into it
  (numbers as exact rationals, colours as the RGB triple that \<open>_rgb_to_hex\<close> formats):
  the opening tag (width, height, viewBox width and height), the background rectangle, the
  marker definition, a line, a node rectangle, the opening of a text block, a text span and
  the two closing tags.
\<close>

datatype svg_elem =
    SvgOpen int int int int
  | SvgBackground int int rgb
  | SvgDefs rgb
  | SvgLine rat rat rat rat rgb
  | SvgNodeRect int int int int int rgb rgb
  | SvgTextOpen rat rat rgb pystr int
  | SvgTspan rat int pystr
  | SvgTextClose
  | SvgClose

definition pad_x :: int where "pad_x = 100"
definition pad_y :: int where "pad_y = 110"
definition hgap :: int where "hgap = 80"
definition vgap :: int where "vgap = 90"
definition box_w :: int where "box_w = 320"
definition box_h :: int where "box_h = 110"
definition corner :: int where "corner = 18"

definition max_per_row_of :: "nat \<Rightarrow> nat" where
  "max_per_row_of node_count =
     (if node_count \<le> 4 then node_count else if node_count \<le> 6 then 3 else 4)"

text \<open>\<open>math.ceil(a / b)\<close> for non-negative integers; the division raises when \<open>b\<close> is 0.\<close>

definition ceil_div :: "nat \<Rightarrow> nat \<Rightarrow> py_error + int" where
  "ceil_div a b =
     (if b = 0 then Inl ZeroDivisionError else Inr \<lceil>rat_of_nat a / rat_of_nat b\<rceil>)"

text \<open>The loop that fills the dictionary \<open>pos\<close>; \<open>i\<close> is the index \<open>enumerate\<close> gives.\<close>

fun node_positions ::
  "nat \<Rightarrow> pystr list \<Rightarrow> nat \<Rightarrow> (pystr \<rightharpoonup> int \<times> int) \<Rightarrow> (pystr \<rightharpoonup> int \<times> int)" where
  "node_positions max_per_row [] i pos = pos"
| "node_positions max_per_row (name # rest) i pos =
     (let r = i div max_per_row;
          c = i mod max_per_row;
          x = pad_x + int c * (box_w + hgap);
          y = pad_y + int r * (box_h + vgap)
      in node_positions max_per_row rest (Suc i) (pos(name \<mapsto> (x, y))))"

text \<open>\<open>nodes.index(s) if s in nodes else 0\<close>: the first position of \<open>s\<close>.\<close>

fun first_index :: "pystr list \<Rightarrow> pystr \<Rightarrow> nat" where
  "first_index [] s = 0"
| "first_index (n # ns) s = (if n = s then 0 else Suc (first_index ns s))"

definition index_or_zero :: "pystr list \<Rightarrow> pystr \<Rightarrow> nat" where
  "index_or_zero nodes s = (if s \<in> set nodes then first_index nodes s else 0)"

text \<open>The body of the loop over the edges: \<open>None\<close> is the \<open>continue\<close>.\<close>

definition edge_line ::
  "pystr list \<Rightarrow> (pystr \<rightharpoonup> int \<times> int) \<Rightarrow> rgb \<Rightarrow> pystr \<times> pystr \<Rightarrow> svg_elem option" where
  "edge_line nodes pos node_line e =
     (case e of (src, dst) \<Rightarrow>
        (case pos src of None \<Rightarrow> None
         | Some (ax, ay) \<Rightarrow>
        (case pos dst of None \<Rightarrow> None
         | Some (bx, by) \<Rightarrow>
            (let src_idx = index_or_zero nodes src;
                 dst_idx = index_or_zero nodes dst
             in if dst_idx > src_idx then
                  Some (SvgLine (of_int (ax + box_w)) (of_int ay + of_int box_h / 2)
                                (of_int bx) (of_int by + of_int box_h / 2) node_line)
                else if dst_idx < src_idx then
                  Some (SvgLine (of_int ax) (of_int ay + of_int box_h / 2)
                                (of_int (bx + box_w)) (of_int by + of_int box_h / 2) node_line)
                else
                  Some (SvgLine (of_int ax + of_int box_w / 2) (of_int (ay + box_h))
                                (of_int bx + of_int box_w / 2) (of_int by) node_line)))))"

text \<open>The three \<open>replace\<close> calls on a wrapped line.\<close>

definition xml_escape :: "pystr \<Rightarrow> pystr" where
  "xml_escape line =
     concat (map (\<lambda>c. if c = 38 then ustr ''&amp;''
                       else if c = 60 then ustr ''&lt;''
                       else if c = 62 then ustr ''&gt;'' else [c]) line)"

text \<open>What the loop over the nodes appends for one node placed at \<open>(x, y)\<close>.\<close>

definition node_elems :: "int \<Rightarrow> int \<Rightarrow> SvgFlowStyle \<Rightarrow> pystr \<Rightarrow> svg_elem list" where
  "node_elems x y style name =
     (let lines = wrap_words name 18;
          font_size = 34;
          line_h = 40;
          block_h = int (length lines) * line_h;
          start_y = of_int y + of_int (box_h - block_h) / 2 + of_int font_size
      in [SvgNodeRect x y box_w box_h corner (node_fill_rgb style) (node_line_rgb style),
          SvgTextOpen (of_int x + of_int box_w / 2) start_y (text_rgb style)
                      (font_family style) font_size]
         @ map (\<lambda>(i, line). SvgTspan (of_int x + of_int box_w / 2)
                              (if i = 0 then 0 else line_h) (xml_escape line))
               (zip [0 ..< length lines] lines)
         @ [SvgTextClose])"

text \<open>The loop over the nodes; \<open>pos[name]\<close> raises on a missing key.\<close>

fun render_nodes ::
  "(pystr \<rightharpoonup> int \<times> int) \<Rightarrow> SvgFlowStyle \<Rightarrow> pystr list \<Rightarrow> py_error + svg_elem list" where
  "render_nodes pos style [] = Inr []"
| "render_nodes pos style (name # rest) =
     (case pos name of None \<Rightarrow> Inl KeyError
      | Some (x, y) \<Rightarrow>
          (case render_nodes pos style rest of Inl e \<Rightarrow> Inl e
           | Inr els \<Rightarrow> Inr (node_elems x y style name @ els)))"

text \<open>
  The canvas that the grid needs, and the fit scale of lines 86 and 87: the two true
  divisions, left to right, then the two \<open>min\<close>.
\<close>

definition grid_cols :: "nat \<Rightarrow> int" where
  "grid_cols node_count = min (int (max_per_row_of node_count)) (max (int node_count) 1)"

definition needed_w :: "int \<Rightarrow> int" where
  "needed_w cols = pad_x * 2 + cols * box_w + (cols - 1) * hgap"

definition needed_h :: "int \<Rightarrow> int" where
  "needed_h rows = pad_y * 2 + rows * box_h + (rows - 1) * vgap"

definition fit_scale :: "int \<Rightarrow> int \<Rightarrow> int \<Rightarrow> int \<Rightarrow> py_error + rat" where
  "fit_scale width_px height_px nw nh =
     (case true_div width_px nw of Inl e \<Rightarrow> Inl e
      | Inr a \<Rightarrow>
     (case true_div height_px nh of Inl e \<Rightarrow> Inl e
      | Inr b \<Rightarrow>
        (let scale = min a b
         in Inr (min scale 1))))"

text \<open>
  The function: the row count (line 70), the canvas and the scale (lines 83 to 87), the
  positions, the three opening elements, the lines of the edges, the nodes, the closing tag,
  and the final test on the scale, whose branch does nothing.
\<close>

definition render_flow_svg ::
  "pystr list \<Rightarrow> edge_in list \<Rightarrow> SvgFlowStyle option \<Rightarrow> int \<Rightarrow> int \<Rightarrow> py_error + svg_elem list" where
  "render_flow_svg nodes edges style_arg width_px height_px =
     (let style = (case style_arg of None \<Rightarrow> default_style | Some s \<Rightarrow> s);
          node_count = length nodes;
          max_per_row = max_per_row_of node_count;
          cols = grid_cols node_count
      in case ceil_div node_count max_per_row of Inl e \<Rightarrow> Inl e
         | Inr q \<Rightarrow>
      (let rows = max 1 q;
           nw = needed_w cols;
           nh = needed_h rows
       in case fit_scale width_px height_px nw nh of Inl e \<Rightarrow> Inl e
          | Inr scale \<Rightarrow>
      (let view_w = nw;
           view_h = nh;
           pos = node_positions max_per_row nodes 0 Map.empty;
           head = [SvgOpen width_px height_px view_w view_h,
                   SvgBackground view_w view_h (background_rgb style),
                   SvgDefs (node_line_rgb style)];
           lines = List.map_filter (edge_line nodes pos (node_line_rgb style)) (iter_edges edges)
       in case render_nodes pos style nodes of Inl e \<Rightarrow> Inl e
          | Inr boxes \<Rightarrow>
              (let svg = head @ lines @ boxes @ [SvgClose]
               in if scale < 1 then Inr svg else Inr svg))))"

subsection \<open>Notions used to state the properties of the renderer\<close>

text \<open>The dictionary \<open>pos\<close> and the row count as \<open>render_flow_svg\<close> computes them.\<close>

definition layout_pos :: "pystr list \<Rightarrow> (pystr \<rightharpoonup> int \<times> int)" where
  "layout_pos nodes = node_positions (max_per_row_of (length nodes)) nodes 0 Map.empty"

definition grid_rows :: "nat \<Rightarrow> int" where
  "grid_rows node_count =
     max 1 \<lceil>rat_of_nat node_count / rat_of_nat (max_per_row_of node_count)\<rceil>"

text \<open>The specification's grid cell of node \<open>i\<close> among \<open>n\<close> nodes (top-left corner).\<close>

definition grid_cell :: "nat \<Rightarrow> nat \<Rightarrow> int \<times> int" where
  "grid_cell n i =
     (pad_x + int (i mod max_per_row_of n) * (box_w + hgap),
      pad_y + int (i div max_per_row_of n) * (box_h + vgap))"

text \<open>Two boxes of the fixed size, given by their top-left corners, share a point.\<close>

definition boxes_overlap :: "int \<times> int \<Rightarrow> int \<times> int \<Rightarrow> bool" where
  "boxes_overlap p q =
     (fst p < fst q + box_w \<and> fst q < fst p + box_w \<and>
      snd p < snd q + box_h \<and> snd q < snd p + box_h)"

text \<open>The four anchor points of a box with top-left corner \<open>(x, y)\<close>.\<close>

definition right_middle :: "int \<times> int \<Rightarrow> rat \<times> rat" where
  "right_middle p = (of_int (fst p + box_w), of_int (snd p) + of_int box_h / 2)"

definition left_middle :: "int \<times> int \<Rightarrow> rat \<times> rat" where
  "left_middle p = (of_int (fst p), of_int (snd p) + of_int box_h / 2)"

definition bottom_middle :: "int \<times> int \<Rightarrow> rat \<times> rat" where
  "bottom_middle p = (of_int (fst p) + of_int box_w / 2, of_int (snd p + box_h))"

definition top_middle :: "int \<times> int \<Rightarrow> rat \<times> rat" where
  "top_middle p = (of_int (fst p) + of_int box_w / 2, of_int (snd p))"

definition line_between :: "rat \<times> rat \<Rightarrow> rat \<times> rat \<Rightarrow> rgb \<Rightarrow> svg_elem" where
  "line_between p q colour = SvgLine (fst p) (snd p) (fst q) (snd q) colour"

definition node_box :: "int \<times> int \<Rightarrow> SvgFlowStyle \<Rightarrow> svg_elem" where
  "node_box p style =
     SvgNodeRect (fst p) (snd p) box_w box_h corner (node_fill_rgb style) (node_line_rgb style)"


fun is_node_rect :: "svg_elem \<Rightarrow> bool" where
  "is_node_rect (SvgNodeRect x y w h r f s) = True"
| "is_node_rect e = False"







text \<open>
  The requested width and height are within reach of the fit scale: neither ratio to the
  needed canvas is beyond the range of a double.
\<close>

definition canvas_fits :: "pystr list \<Rightarrow> int \<Rightarrow> int \<Rightarrow> bool" where
  "canvas_fits nodes w h =
     (\<not> float_overflows (of_int w / of_int (needed_w (grid_cols (length nodes))))
      \<and> \<not> float_overflows (of_int h / of_int (needed_h (grid_rows (length nodes)))))"

definition style_or_default :: "SvgFlowStyle option \<Rightarrow> SvgFlowStyle" where
  "style_or_default style_arg = (case style_arg of None \<Rightarrow> default_style | Some s \<Rightarrow> s)"

text \<open>The end-to-end scenario of the specification: five nodes in a chain.\<close>

definition chain_nodes :: "pystr list" where
  "chain_nodes = [ustr ''Input'', ustr ''Step 1'', ustr ''Step 2'', ustr ''Output'', ustr ''Result'']"

definition chain_edges :: "edge_in list" where
  "chain_edges =
     [EdgeTuple [ustr ''Input'', ustr ''Step 1''], EdgeTuple [ustr ''Step 1'', ustr ''Step 2''],
      EdgeTuple [ustr ''Step 2'', ustr ''Output''], EdgeTuple [ustr ''Output'', ustr ''Result'']]"

text \<open>
  The document that \<open>render_flow_svg\<close> returns for a non-empty node list, written out:
  the three opening elements, one line per surviving edge, the elements of each node, and
  the closing tag.
\<close>

definition doc_of ::
  "pystr list \<Rightarrow> edge_in list \<Rightarrow> SvgFlowStyle \<Rightarrow> int \<Rightarrow> int \<Rightarrow> svg_elem list" where
  "doc_of nodes edges style w h =
     [SvgOpen w h (needed_w (grid_cols (length nodes))) (needed_h (grid_rows (length nodes))),
      SvgBackground (needed_w (grid_cols (length nodes))) (needed_h (grid_rows (length nodes)))
        (background_rgb style),
      SvgDefs (node_line_rgb style)]
     @ List.map_filter (edge_line nodes (layout_pos nodes) (node_line_rgb style)) (iter_edges edges)
     @ concat (map (\<lambda>n. node_elems (fst (the (layout_pos nodes n))) (snd (the (layout_pos nodes n)))
                          style n) nodes)
     @ [SvgClose]"


definition doc_rest :: "py_error + svg_elem list \<Rightarrow> svg_elem list" where
  "doc_rest r = (case r of Inl e \<Rightarrow> [] | Inr d \<Rightarrow> tl d)"

definition returns :: "py_error + 'a \<Rightarrow> bool" where
  "returns r = (case r of Inl e \<Rightarrow> False | Inr d \<Rightarrow> True)"


definition doc_elems :: "py_error + svg_elem list \<Rightarrow> svg_elem list" where
  "doc_elems r = (case r of Inl e \<Rightarrow> [] | Inr d \<Rightarrow> d)"

section \<open>app/models.py\<close>

datatype SlideType = Intro | Process | Flow | Summary

record DiagramSpec =
  dg_nodes :: "pystr list"
  dg_edges :: "(pystr \<times> pystr) list"

text \<open>\<open>slide_type\<close> is the field \<open>type\<close>, \<open>slide_keywords\<close> the field \<open>keywords\<close>.\<close>

record SlideSpec =
  slide_type :: SlideType
  title :: pystr
  content :: pystr
  slide_keywords :: "pystr list"
  image_query :: "pystr option"
  image_alt :: "pystr option"
  image_subject :: "pystr option"
  image_setting :: "pystr option"
  image_style :: "pystr option"
  layout_preference :: "pystr option"
  emphasis :: "pystr option"
  diagram :: "DiagramSpec option"

record PresentationSpec =
  deck_title :: pystr
  slides :: "SlideSpec list"

text \<open>
  \<open>PresentationSpec.model_validate\<close> on data that already has the field types: what can
  still fail are the two \<open>min_length=1\<close> constraints, on \<open>slides\<close> and on a diagram's
  \<open>nodes\<close>.
\<close>

definition valid_slide :: "SlideSpec \<Rightarrow> bool" where
  "valid_slide s = (case diagram s of None \<Rightarrow> True | Some d \<Rightarrow> dg_nodes d \<noteq> [])"

definition model_validate :: "PresentationSpec \<Rightarrow> py_error + PresentationSpec" where
  "model_validate p =
     (if slides p \<noteq> [] \<and> list_all valid_slide (slides p) then Inr p else Inl ValidationError)"

text \<open>\<open>xs[:n]\<close> for any integer \<open>n\<close>: a negative \<open>n\<close> counts from the end.\<close>

definition py_take :: "int \<Rightarrow> 'a list \<Rightarrow> 'a list" where
  "py_take n xs = (if 0 \<le> n then take (nat n) xs else take (length xs - nat (- n)) xs)"

section \<open>app/ai/prompt.py: \<open>mock_presentation\<close>\<close>

text \<open>A slide read from a dictionary that gives only these fields; the others default.\<close>

definition slide_of ::
  "SlideType \<Rightarrow> pystr \<Rightarrow> pystr \<Rightarrow> pystr list \<Rightarrow> DiagramSpec option \<Rightarrow> SlideSpec" where
  "slide_of ty ti co kw dg =
     \<lparr>slide_type = ty, title = ti, content = co, slide_keywords = kw,
      image_query = None, image_alt = None, image_subject = None, image_setting = None,
      image_style = None, layout_preference = None, emphasis = None, diagram = dg\<rparr>"

definition mock_diagram :: DiagramSpec where
  "mock_diagram =
     \<lparr>dg_nodes = [ustr ''Start'', ustr ''Input'', ustr ''Process'', ustr ''Decision'',
                  ustr ''Output'', ustr ''End''],
      dg_edges = [(ustr ''Start'', ustr ''Input''), (ustr ''Input'', ustr ''Process''),
                  (ustr ''Process'', ustr ''Decision''), (ustr ''Decision'', ustr ''Output''),
                  (ustr ''Output'', ustr ''End'')]\<rparr>"

definition mock_base :: "pystr \<Rightarrow> SlideSpec list" where
  "mock_base topic =
     [slide_of Intro topic (ustr ''An overview of '' @ topic @ ustr '' and why it matters.'')
        [topic, ustr ''overview''] None,
      slide_of Process (ustr ''Core Components'')
        (ustr ''Identify inputs, steps, and outputs. Then connect them logically.'')
        [ustr ''inputs'', ustr ''steps'', ustr ''outputs''] None,
      slide_of Flow (ustr ''End-to-End Flow'')
        (ustr ''A simple flow diagram showing how the process moves from start to finish.'')
        [ustr ''flow'', ustr ''diagram''] (Some mock_diagram)]"

definition mock_step :: "nat \<Rightarrow> SlideSpec" where
  "mock_step k =
     slide_of Process (ustr ''Step '' @ str_of_nat k)
       (ustr ''Explain one key step with a clear takeaway.'') [ustr ''step'', ustr ''takeaway''] None"

definition mock_summary :: SlideSpec where
  "mock_summary =
     slide_of Summary (ustr ''Summary'') (ustr ''Key takeaways and what to remember.'')
       [ustr ''summary'', ustr ''recap''] None"

text \<open>The \<open>while\<close> loop of \<open>mock_presentation\<close>.\<close>

function mock_pad :: "SlideSpec list \<Rightarrow> int \<Rightarrow> SlideSpec list" where
  "mock_pad ss slide_count =
     (if int (length ss) < max (slide_count - 1) 3
      then mock_pad (ss @ [mock_step (length ss)]) slide_count else ss)"
  by pat_completeness auto
termination
  by (relation "measure (\<lambda>(ss, slide_count). nat (max (slide_count - 1) 3 - int (length ss)))") auto

declare mock_pad.simps [simp del]

definition mock_presentation :: "pystr \<Rightarrow> int \<Rightarrow> PresentationSpec" where
  "mock_presentation topic slide_count =
     \<lparr>deck_title = topic,
      slides = py_take slide_count (mock_pad (mock_base topic) slide_count @ [mock_summary])\<rparr>"

section \<open>app/planner.py: \<open>normalize_presentation_spec\<close>\<close>

definition key_points :: pystr where
  "key_points = ustr ''- Key point'' @ [NL] @ ustr ''- Key point'' @ [NL]
                @ ustr ''- Key point'' @ [NL] @ ustr ''- Key point''"

definition pad_slide :: "pystr \<Rightarrow> nat \<Rightarrow> SlideSpec" where
  "pad_slide topic k =
     slide_of Process (ustr ''Step '' @ str_of_nat k) key_points
       [topic, ustr ''steps'', ustr ''process'', ustr ''overview''] None"

text \<open>
  The padding loop. Lists are unbounded here: a slide count too large for the memory of the
  machine is outside the model.
\<close>

function pad_slides :: "SlideSpec list \<Rightarrow> pystr \<Rightarrow> int \<Rightarrow> SlideSpec list" where
  "pad_slides ss topic slide_count =
     (if int (length ss) < slide_count
      then pad_slides (ss @ [pad_slide topic (length ss)]) topic slide_count else ss)"
  by pat_completeness auto
termination
  by (relation "measure (\<lambda>(ss, topic, slide_count). nat (slide_count - int (length ss)))") auto

declare pad_slides.simps [simp del]

text \<open>Lines 93 to 100: \<open>slides[0]\<close> and \<open>slides[-1]\<close> raise on an empty list.\<close>

definition force_intro :: "SlideSpec list \<Rightarrow> py_error + SlideSpec list" where
  "force_intro ss =
     (if ss = [] then Inl IndexError
      else if slide_type (ss ! 0) \<noteq> Intro
           then Inr (ss[0 := (ss ! 0)\<lparr>slide_type := Intro\<rparr>])
           else Inr ss)"

definition force_summary :: "SlideSpec list \<Rightarrow> py_error + SlideSpec list" where
  "force_summary ss =
     (if ss = [] then Inl IndexError
      else let k = length ss - 1 in
           if slide_type (ss ! k) \<noteq> Summary
           then Inr (ss[k := (ss ! k)\<lparr>slide_type := Summary, title := ustr ''Summary''\<rparr>])
           else Inr ss)"

text \<open>\<open>ln.replace("\<bullet> ", "- ")\<close>, scanning from the left without overlap.\<close>

fun replace_bullet_sp :: "pystr \<Rightarrow> pystr" where
  "replace_bullet_sp (a # b # cs) =
     (if a = BULLET \<and> b = SP then HYPHEN # SP # replace_bullet_sp cs
      else a # replace_bullet_sp (b # cs))"
| "replace_bullet_sp cs = cs"

definition fix_line :: "pystr \<Rightarrow> pystr" where
  "fix_line l =
     (if take 2 l = [HYPHEN, SP] \<or> take 2 l = [BULLET, SP] then replace_bullet_sp l
      else [HYPHEN, SP] @ l)"

text \<open>
  The body of the bullet-coercion loop, from the content to the new content: first lines
  106 to 116 (the default text, and a paragraph split into sentences), then lines 118 to 125
  (the prefix of each line).
\<close>

definition split_paragraph :: "pystr \<Rightarrow> pystr" where
  "split_paragraph c =
     (let text0 = strip c;
          text1 = (if text0 = [] then key_points else text0)
      in if NL \<notin> set text1
         then (let parts = filter (\<lambda>p. p \<noteq> [])
                             (map strip (split_on PERIOD (filter (\<lambda>x. x \<noteq> BULLET) text1)))
               in if 2 \<le> length parts
                  then join [NL] (map (\<lambda>p. [HYPHEN, SP] @ p) (take 6 parts))
                  else [HYPHEN, SP] @ text1)
         else text1)"

definition coerce_text :: "pystr \<Rightarrow> pystr" where
  "coerce_text c =
     (let text2 = split_paragraph c;
          lines = filter (\<lambda>l. l \<noteq> []) (map strip (split_on NL text2));
          fixed = map fix_line (take 8 lines)
      in join [NL] fixed)"

definition coerce_slide :: "SlideSpec \<Rightarrow> SlideSpec" where
  "coerce_slide s =
     (if slide_type s = Process \<or> slide_type s = Summary
      then s\<lparr>content := coerce_text (content s)\<rparr> else s)"

text \<open>Lines 127 to 139.\<close>

definition has_flow :: "SlideSpec list \<Rightarrow> bool" where
  "has_flow ss = list_ex (\<lambda>s. slide_type s = Flow \<and> diagram s \<noteq> None) ss"

definition basic_diagram :: DiagramSpec where
  "basic_diagram =
     (let ns = [ustr ''Input'', ustr ''Step 1'', ustr ''Step 2'', ustr ''Output'', ustr ''Result'']
      in \<lparr>dg_nodes = ns, dg_edges = map (\<lambda>i. (ns ! i, ns ! (i + 1))) [0 ..< length ns - 1]\<rparr>)"

definition ensure_flow :: "SlideSpec list \<Rightarrow> py_error + SlideSpec list" where
  "ensure_flow ss =
     (if has_flow ss then Inr ss
      else let len = int (length ss);
               mid = max 1 (min (len - 2) (len div 2))
           in if len \<le> mid then Inl IndexError
              else Inr (ss[nat mid := (ss ! nat mid)
                         \<lparr>slide_type := Flow, title := ustr ''Process Flow'',
                          diagram := Some basic_diagram\<rparr>]))"

text \<open>Lines 80 to 139: what the function does to the list \<open>slides\<close>, in order.\<close>

definition repair_slides :: "SlideSpec list \<Rightarrow> pystr \<Rightarrow> int \<Rightarrow> py_error + SlideSpec list" where
  "repair_slides ss topic slide_count =
     (let s1 = (if slide_count < int (length ss) then py_take slide_count ss else ss);
          s2 = pad_slides s1 topic slide_count
      in case force_intro s2 of Inl e \<Rightarrow> Inl e
         | Inr s3 \<Rightarrow>
        (case force_summary s3 of Inl e \<Rightarrow> Inl e
         | Inr s4 \<Rightarrow> ensure_flow (map coerce_slide s4)))"

text \<open>
  The whole function. Only \<open>ValidationError\<close> is caught by the \<open>try\<close> around the final
  validation.
\<close>

definition normalize_presentation_spec ::
  "PresentationSpec option \<Rightarrow> pystr \<Rightarrow> int \<Rightarrow> py_error + PresentationSpec" where
  "normalize_presentation_spec spec topic slide_count =
     (case spec of
        None \<Rightarrow> model_validate (mock_presentation topic slide_count)
      | Some sp \<Rightarrow>
          if slides sp = [] then model_validate (mock_presentation topic slide_count)
          else
            (case repair_slides (slides sp) topic slide_count of Inl e \<Rightarrow> Inl e
             | Inr s6 \<Rightarrow>
                (case model_validate
                        \<lparr>deck_title = (if deck_title sp \<noteq> [] then deck_title sp else topic),
                         slides = s6\<rparr> of
                   Inr p \<Rightarrow> Inr p
                 | Inl e \<Rightarrow>
                     if e = ValidationError
                     then model_validate (mock_presentation topic slide_count)
                     else Inl e)))"

subsection \<open>Notions used to state the properties of the normaliser\<close>

text \<open>
  The structural invariants of the specification: the requested number of slides, an intro
  first, a summary last, and at least one flow slide that has a diagram.
\<close>

definition flow_with_diagram :: "SlideSpec list \<Rightarrow> bool" where
  "flow_with_diagram ss = list_ex (\<lambda>s. slide_type s = Flow \<and> diagram s \<noteq> None) ss"

definition four_invariants :: "PresentationSpec \<Rightarrow> int \<Rightarrow> bool" where
  "four_invariants p n =
     (int (length (slides p)) = n \<and> slide_type (hd (slides p)) = Intro
      \<and> slide_type (last (slides p)) = Summary \<and> flow_with_diagram (slides p))"

text \<open>
  A content that is a newline-delimited list of at most eight lines, each starting with
  a hyphen and a space; and the bound of 120 characters on each line.
\<close>

definition hyphen_bulleted :: "pystr \<Rightarrow> bool" where
  "hyphen_bulleted c =
     (length (split_on NL c) \<le> 8 \<and> list_all (\<lambda>l. take 2 l = [HYPHEN, SP]) (split_on NL c))"

definition bullets_at_most :: "nat \<Rightarrow> pystr \<Rightarrow> bool" where
  "bullets_at_most k c = list_all (\<lambda>l. length l \<le> k) (split_on NL c)"

definition bulleted_slide :: "SlideSpec \<Rightarrow> bool" where
  "bulleted_slide s =
     (if slide_type s = Process \<or> slide_type s = Summary then hyphen_bulleted (content s) else True)"

definition bounded_slide :: "SlideSpec \<Rightarrow> bool" where
  "bounded_slide s =
     (if slide_type s = Process \<or> slide_type s = Summary then bullets_at_most 120 (content s) else True)"

text \<open>The five invariants together, as a property of what the normaliser returns.\<close>

definition five_invariants :: "py_error + PresentationSpec \<Rightarrow> int \<Rightarrow> bool" where
  "five_invariants r n =
     (case r of Inl e \<Rightarrow> False
      | Inr p \<Rightarrow> four_invariants p n \<and> list_all bulleted_slide (slides p)
                   \<and> list_all bounded_slide (slides p))"

text \<open>
  A document that is a validated \<open>PresentationSpec\<close> instance: not null, at least one
  slide, every diagram with at least one node.
\<close>

definition repairable :: "PresentationSpec option \<Rightarrow> bool" where
  "repairable spec =
     (case spec of None \<Rightarrow> False
      | Some sp \<Rightarrow> slides sp \<noteq> [] \<and> list_all valid_slide (slides sp))"


text \<open>
  A content that a further bullet coercion leaves alone: a list of two to eight lines, each
  starting with a hyphen and a space, not ending in white space, and without a bullet
  character followed by a space.
\<close>

fun no_bullet_sp :: "pystr \<Rightarrow> bool" where
  "no_bullet_sp (a # b # cs) = (\<not> (a = BULLET \<and> b = SP) \<and> no_bullet_sp (b # cs))"
| "no_bullet_sp cs = True"

definition settled_line :: "pystr \<Rightarrow> bool" where
  "settled_line l = (take 2 l = [HYPHEN, SP] \<and> \<not> isspace (last l) \<and> no_bullet_sp l)"

definition settled_bullets :: "pystr \<Rightarrow> bool" where
  "settled_bullets c =
     (2 \<le> length (split_on NL c) \<and> length (split_on NL c) \<le> 8
      \<and> list_all settled_line (split_on NL c))"


text \<open>
  Example documents: a deck of one process slide whose content is a paragraph of three
  sentences; a deck of three slides that already has the structure (intro, flow with a
  diagram, summary), with a given content for its summary; and a deck of four slides none
  of which has the role that the normaliser wants.
\<close>

definition one_bullet_deck :: PresentationSpec where
  "one_bullet_deck =
     \<lparr>deck_title = ustr ''Deck'',
      slides = [slide_of Process (ustr ''Only'') (ustr ''Step one. Step two. Step three.'') [] None]\<rparr>"

definition framed_deck :: "pystr \<Rightarrow> PresentationSpec" where
  "framed_deck c =
     \<lparr>deck_title = ustr ''Deck'',
      slides = [slide_of Intro (ustr ''Start'') (ustr ''Opening'') [] None,
                slide_of Flow (ustr ''Flow'') (ustr ''Steps'') [] (Some mock_diagram),
                slide_of Summary (ustr ''Summary'') c [] None]\<rparr>"

definition four_flow_deck :: PresentationSpec where
  "four_flow_deck =
     \<lparr>deck_title = ustr ''Deck'',
      slides = [slide_of Flow (ustr ''A'') (ustr ''a'') [ustr ''k''] (Some mock_diagram),
                slide_of Flow (ustr ''B'') (ustr ''b'') [] None,
                slide_of Flow (ustr ''C'') (ustr ''c'') [] None,
                slide_of Flow (ustr ''D'') (ustr ''d'') [ustr ''k''] (Some mock_diagram)]\<rparr>"

section \<open>Properties of the word wrap\<close>

lemma split_ws_words:
  "(\<forall>c \<in> set acc. \<not> isspace c) \<Longrightarrow>
   \<forall>w \<in> set (split_ws acc s). w \<noteq> [] \<and> (\<forall>c \<in> set w. \<not> isspace c)"
proof (induction s arbitrary: acc)
  case Nil
  then show ?case by simp
next
  case (Cons a s)
  have e: "\<forall>w \<in> set (split_ws [] s). w \<noteq> [] \<and> (\<forall>c \<in> set w. \<not> isspace c)"
    using Cons.IH[of "[]"] by simp
  have f: "\<forall>w \<in> set (split_ws (acc @ [a]) s). w \<noteq> [] \<and> (\<forall>c \<in> set w. \<not> isspace c)"
    if "\<not> isspace a"
  proof (rule Cons.IH)
    show "\<forall>c \<in> set (acc @ [a]). \<not> isspace c" using that Cons.prems by simp
  qed
  show ?case using e f Cons.prems by auto
qed

lemma split_ws_clean: "w \<in> set (split_ws [] s) \<Longrightarrow> clean w"
  using split_ws_words[of "[]" s] by (auto simp: clean_def)

lemma dropWhile_hd_id: "s \<noteq> [] \<Longrightarrow> \<not> P (hd s) \<Longrightarrow> dropWhile P s = s"
  by (cases s) auto

lemma strip_id: "s \<noteq> [] \<Longrightarrow> \<not> isspace (hd s) \<Longrightarrow> \<not> isspace (last s) \<Longrightarrow> strip s = s"
  by (simp add: strip_def dropWhile_hd_id hd_rev)

lemma join_Cons_ne: "join sep (x # xs) = (if xs = [] then x else x @ sep @ join sep xs)"
  by (cases xs) auto

lemma join_snoc: "join sep (xs @ [w]) = (if xs = [] then w else join sep xs @ sep @ w)"
  by (induction sep xs rule: join.induct) auto

lemma hd_join: "x \<noteq> [] \<Longrightarrow> hd (join sep (x # xs)) = hd x"
  by (simp add: join_Cons_ne)

lemma join_clean:
  assumes "\<forall>x \<in> set (cur @ [w]). clean x"
  shows "strip (join [SP] (cur @ [w])) = join [SP] (cur @ [w])"
proof (rule strip_id)
  from assms have w: "w \<noteq> []" "\<not> isspace (last w)" by (auto simp: clean_def)
  show "join [SP] (cur @ [w]) \<noteq> []" using w by (simp add: join_snoc)
  show "\<not> isspace (last (join [SP] (cur @ [w])))" using w by (simp add: join_snoc)
  show "\<not> isspace (hd (join [SP] (cur @ [w])))"
  proof (cases cur)
    case Nil
    then show ?thesis using assms by (simp add: clean_def)
  next
    case (Cons a as)
    then have "a \<noteq> []" "\<not> isspace (hd a)" using assms by (auto simp: clean_def)
    then show ?thesis using Cons by (simp add: join_Cons_ne)
  qed
qed

lemma greedy_lines_ne: "greedy_lines cur ws m \<noteq> []"
  by (induction cur ws m rule: greedy_lines.induct) auto

lemma wrap_loop_greedy:
  "\<forall>x \<in> set (cur @ ws). clean x \<Longrightarrow>
   wrap_loop lines cur ws m =
     (lines @ map (join [SP]) (butlast (greedy_lines cur ws m)), last (greedy_lines cur ws m))"
proof (induction cur ws m arbitrary: lines rule: greedy_lines.induct)
  case (1 cur budget)
  then show ?case by simp
next
  case (2 cur w ws budget)
  have st: "strip (join [SP] (cur @ [w])) = join [SP] (cur @ [w])"
    using "2.prems" by (intro join_clean) auto
  show ?case
  proof (cases "cur = [] \<or> int (length (join [SP] (cur @ [w]))) \<le> budget")
    case True
    then show ?thesis using 2 st by (auto simp: Let_def)
  next
    case False
    then show ?thesis using 2 st by (auto simp: Let_def greedy_lines_ne)
  qed
qed

lemma greedy_lines_concat: "concat (greedy_lines cur ws m) = cur @ ws"
  by (induction cur ws m rule: greedy_lines.induct) auto

lemma greedy_lines_groups_ne:
  "cur \<noteq> [] \<or> ws \<noteq> [] \<Longrightarrow> g \<in> set (greedy_lines cur ws m) \<Longrightarrow> g \<noteq> []"
  by (induction cur ws m rule: greedy_lines.induct) (auto split: if_splits)

lemma greedy_lines_fit:
  "length cur \<le> 1 \<or> int (length (join [SP] cur)) \<le> m \<Longrightarrow> g \<in> set (greedy_lines cur ws m) \<Longrightarrow>
   length g \<le> 1 \<or> int (length (join [SP] g)) \<le> m"
  by (induction cur ws m rule: greedy_lines.induct) (auto split: if_splits)

lemma length_le_join: "w \<in> set g \<Longrightarrow> length w \<le> length (join sep g)"
  by (induction sep g rule: join.induct) auto


lemma split_ws_filter: "filter (\<lambda>w. w \<noteq> []) (split_ws [] s) = split_ws [] s"
  using split_ws_words[of "[]" s] by (simp add: filter_id_conv)

lemma split_ws_all_space: "\<forall>c \<in> set s. isspace c \<Longrightarrow> split_ws [] s = []"
  by (induction s) auto

lemma wrap_words_eq_greedy:
  "wrap_words label m =
     (if split_ws [] label = [] then [[]]
      else take 3 (map (join [SP]) (greedy_lines [] (split_ws [] label) m)))"
proof (cases "split_ws [] label = []")
  case True
  then show ?thesis by (simp add: wrap_words_def split_ws_filter)
next
  case False
  let ?ws = "split_ws [] label"
  let ?G = "greedy_lines [] ?ws m"
  have cl: "\<forall>x \<in> set ([] @ ?ws). clean x" by (simp add: split_ws_clean)
  have loop: "wrap_loop [] [] ?ws m = ([] @ map (join [SP]) (butlast ?G), last ?G)"
    by (rule wrap_loop_greedy[OF cl])
  have "last ?G \<in> set ?G" by (simp add: greedy_lines_ne)
  then have ne: "last ?G \<noteq> []" using False greedy_lines_groups_ne by blast
  have "map (join [SP]) (butlast ?G) @ [join [SP] (last ?G)] = map (join [SP]) (butlast ?G @ [last ?G])"
    by simp
  also have "\<dots> = map (join [SP]) ?G" by (simp add: greedy_lines_ne)
  finally show ?thesis using False loop ne by (simp add: wrap_words_def split_ws_filter)
qed

text \<open>
  Claim C7. For every label and every budget, \<open>_wrap_words\<close> returns at most three lines
  and never zero lines; its result is the greedy wrap of the specification (a word joins
  the open line while the space-joined trial length stays within the budget, and the word
  that would exceed it starts the next line), cut to the first three lines; and a label
  that is empty or consists of whitespace only yields exactly one line, the empty string.
\<close>

theorem wrap_words_at_most_three_greedy:
  "length (wrap_words label budget) \<le> 3
   \<and> wrap_words label budget \<noteq> []
   \<and> wrap_words label budget = spec_wrap label budget
   \<and> ((\<forall>c \<in> set label. isspace c) \<longrightarrow> wrap_words label budget = [[]])"
proof -
  have a: "wrap_words label budget = spec_wrap label budget"
    by (simp add: wrap_words_eq_greedy spec_wrap_def)
  have b: "length (wrap_words label budget) \<le> 3"
    by (simp add: wrap_words_eq_greedy)
  have c: "wrap_words label budget \<noteq> []"
    by (simp add: wrap_words_eq_greedy greedy_lines_ne)
  have d: "(\<forall>c \<in> set label. isspace c) \<longrightarrow> wrap_words label budget = [[]]"
    by (simp add: wrap_words_eq_greedy split_ws_all_space)
  from a b c d show ?thesis by blast
qed

theorem wrap_words_at_most_three_greedy_witness:
  "list_all isspace (ustr ''  '') \<and> wrap_words (ustr ''  '') 18 = [[]]
   \<and> length (wrap_words (ustr ''  '') 18) \<le> 3
   \<and> wrap_words (ustr ''  '') 18 = spec_wrap (ustr ''  '') 18"
proof -
  have h: "\<forall>c \<in> set (ustr ''  ''). isspace c"
    by (simp add: ustr_def isspace_def)
  then have l: "list_all isspace (ustr ''  '')"
    by (simp add: list_all_iff)
  from wrap_words_at_most_three_greedy[of "ustr ''  ''" 18] h l show ?thesis by blast
qed

lemma wrap_words_long_word_example:
  "wrap_words (ustr ''abcdefghij x'') 3 = [ustr ''abcdefghij'', ustr ''x'']"
  by (simp add: wrap_words_def ustr_def isspace_def strip_def SP_def)

lemma wrap_words_cut_example:
  "wrap_words (ustr ''a b c abcdefghij'') 1 = [ustr ''a'', ustr ''b'', ustr ''c'']"
  by (simp add: wrap_words_def ustr_def isspace_def strip_def SP_def)

lemma split_ws_cut_example:
  "split_ws [] (ustr ''a b c abcdefghij'') = [ustr ''a'', ustr ''b'', ustr ''c'', ustr ''abcdefghij'']"
  by (simp add: ustr_def isspace_def)

text \<open>
  Claim C10, as it holds. The wrap never splits inside a word: the returned lines are the
  space-joined groups of a partition of a prefix of the label's words, in order (the words
  past the third line are dropped). A word longer than the budget that is emitted stands
  alone on its line, unbroken, so that line is longer than the budget (this happens, for
  example, for the label \<open>abcdefghij x\<close> with budget 3). Conversely, unless the label is
  blank and the budget negative, a returned line is longer than the budget only if it is
  such a single over-long word. Hence the returned lines fit a non-negative budget when
  every word fits it, and the emitted words all fit the budget when every returned line
  does.
\<close>

theorem wrap_words_whole_words:
  "(\<exists>gs. wrap_words label budget = map (join [SP]) gs
      \<and> (\<exists>rest. concat gs @ rest = split_ws [] label)
      \<and> (\<forall>g \<in> set gs. \<forall>w \<in> set g. int (length w) > budget \<longrightarrow> g = [w] \<and> join [SP] g = w)
      \<and> (0 \<le> budget \<or> split_ws [] label \<noteq> [] \<longrightarrow>
           (\<forall>g \<in> set gs. int (length (join [SP] g)) > budget \<longrightarrow>
              (\<exists>w. g = [w] \<and> int (length w) > budget)))
      \<and> (0 \<le> budget \<and> (\<forall>w \<in> set (split_ws [] label). int (length w) \<le> budget) \<longrightarrow>
           (\<forall>l \<in> set (wrap_words label budget). int (length l) \<le> budget))
      \<and> ((\<forall>l \<in> set (wrap_words label budget). int (length l) \<le> budget) \<longrightarrow>
           (\<forall>w \<in> set (concat gs). int (length w) \<le> budget)))
   \<and> (\<exists>l \<in> set (wrap_words (ustr ''abcdefghij x'') 3). int (length l) > 3)"
proof
  show "\<exists>l \<in> set (wrap_words (ustr ''abcdefghij x'') 3). int (length l) > 3"
    unfolding wrap_words_long_word_example by (simp add: ustr_def)
next
  show "\<exists>gs. wrap_words label budget = map (join [SP]) gs
      \<and> (\<exists>rest. concat gs @ rest = split_ws [] label)
      \<and> (\<forall>g \<in> set gs. \<forall>w \<in> set g. int (length w) > budget \<longrightarrow> g = [w] \<and> join [SP] g = w)
      \<and> (0 \<le> budget \<or> split_ws [] label \<noteq> [] \<longrightarrow>
           (\<forall>g \<in> set gs. int (length (join [SP] g)) > budget \<longrightarrow>
              (\<exists>w. g = [w] \<and> int (length w) > budget)))
      \<and> (0 \<le> budget \<and> (\<forall>w \<in> set (split_ws [] label). int (length w) \<le> budget) \<longrightarrow>
           (\<forall>l \<in> set (wrap_words label budget). int (length l) \<le> budget))
      \<and> ((\<forall>l \<in> set (wrap_words label budget). int (length l) \<le> budget) \<longrightarrow>
           (\<forall>w \<in> set (concat gs). int (length w) \<le> budget))"
  proof (cases "split_ws [] label = []")
    case True
    then have w: "wrap_words label budget = map (join [SP]) [[]]"
      by (simp add: wrap_words_eq_greedy)
    show ?thesis
      apply (rule exI[of _ "[[]]"])
      using w True by simp
  next
    case False
    let ?ws = "split_ws [] label"
    let ?G = "greedy_lines [] ?ws budget"
    let ?gs = "take 3 ?G"
    have w: "wrap_words label budget = map (join [SP]) ?gs"
      using False by (simp add: wrap_words_eq_greedy take_map)
    have "concat ?gs @ concat (drop 3 ?G) = concat ?G"
      by (metis append_take_drop_id concat_append)
    then have r: "\<exists>rest. concat ?gs @ rest = ?ws"
      by (metis greedy_lines_concat append_Nil)
    have gne: "g \<noteq> []" if "g \<in> set ?gs" for g
      using that False greedy_lines_groups_ne[of "[]" ?ws g budget] by (auto dest: in_set_takeD)
    have sub: "set g \<subseteq> set ?ws" if "g \<in> set ?gs" for g
    proof -
      have "g \<in> set ?G" using that by (rule in_set_takeD)
      then have "set g \<subseteq> set (concat ?G)" by auto
      then show ?thesis by (simp add: greedy_lines_concat)
    qed
    have fit: "length g \<le> 1 \<or> int (length (join [SP] g)) \<le> budget" if "g \<in> set ?gs" for g
      using that greedy_lines_fit[of "[]" budget g ?ws] by (auto dest: in_set_takeD)
    have long: "g = [w] \<and> join [SP] g = w"
      if "g \<in> set ?gs" "w \<in> set g" "int (length w) > budget" for g w
    proof -
      have "length w \<le> length (join [SP] g)" using that(2) by (rule length_le_join)
      then have "length g \<le> 1" using fit[OF that(1)] that(3) by linarith
      then have "g = [w]" using that(2) by (cases g) auto
      then show ?thesis by simp
    qed
    have over: "\<exists>w. g = [w] \<and> int (length w) > budget"
      if g1: "g \<in> set ?gs" and g2: "int (length (join [SP] g)) > budget" for g
    proof -
      have "length g \<le> 1" using fit[OF g1] g2 by linarith
      then obtain x where "g = [x]" using gne[OF g1] by (cases g) auto
      then show ?thesis using g2 by simp
    qed
    have short: "int (length l) \<le> budget"
      if all: "\<forall>w \<in> set ?ws. int (length w) \<le> budget" and l: "l \<in> set (wrap_words label budget)" for l
    proof -
      from l w obtain g where g: "g \<in> set ?gs" "l = join [SP] g" by auto
      show ?thesis
      proof (rule ccontr)
        assume "\<not> int (length l) \<le> budget"
        then obtain x where "g = [x]" "int (length x) > budget" using over[OF g(1)] g(2) by auto
        then show False using sub[OF g(1)] all by auto
      qed
    qed
    have emitted: "int (length x) \<le> budget"
      if all: "\<forall>l \<in> set (wrap_words label budget). int (length l) \<le> budget"
        and x: "x \<in> set (concat ?gs)" for x
    proof -
      from x obtain g where g: "g \<in> set ?gs" "x \<in> set g" by auto
      have "join [SP] g \<in> set (wrap_words label budget)" using g(1) w by simp
      then have "int (length (join [SP] g)) \<le> budget" using all by blast
      moreover have "length x \<le> length (join [SP] g)" using g(2) by (rule length_le_join)
      ultimately show ?thesis by linarith
    qed
    show ?thesis
      apply (rule exI[of _ ?gs])
      using w r long over short emitted by blast
  qed
qed

theorem wrap_words_whole_words_witness:
  "(0 \<le> (5::int) \<and> list_all (\<lambda>w. int (length w) \<le> 5) (split_ws [] (ustr ''ab cd'')))
   \<and> list_all (\<lambda>l. int (length l) \<le> 5) (wrap_words (ustr ''ab cd'') 5)"
proof -
  have h: "0 \<le> (5::int) \<and> (\<forall>w \<in> set (split_ws [] (ustr ''ab cd'')). int (length w) \<le> 5)"
    by (simp add: ustr_def isspace_def)
  from wrap_words_whole_words[of "ustr ''ab cd''" 5] h
  have "\<forall>l \<in> set (wrap_words (ustr ''ab cd'') 5). int (length l) \<le> 5" by blast
  with h show ?thesis by (simp add: list_all_iff)
qed

text \<open>
  Claim C10 as worded fails where the over-long word falls past the third line: the label
  \<open>a b c abcdefghij\<close> with budget 1 contains a word of ten characters, yet the wrap returns
  the three lines \<open>a\<close>, \<open>b\<close>, \<open>c\<close>, none longer than the budget, so an over-long word in
  the label does not always give an over-long line, and the lines can all fit the budget
  although not every word does.
\<close>

theorem wrap_words_long_word_dropped:
  "list_ex (\<lambda>w. 1 < int (length w)) (split_ws [] (ustr ''a b c abcdefghij''))
   \<and> wrap_words (ustr ''a b c abcdefghij'') 1 = [ustr ''a'', ustr ''b'', ustr ''c'']
   \<and> list_all (\<lambda>l. int (length l) \<le> 1) (wrap_words (ustr ''a b c abcdefghij'') 1)"
  unfolding wrap_words_cut_example split_ws_cut_example by (simp add: ustr_def)

section \<open>Properties of the flow renderer\<close>

lemma ceil_div_pos: "0 < b \<Longrightarrow> ceil_div a b = Inr (- ((- int a) div int b))"
proof -
  have "\<lceil>rat_of_nat a / rat_of_nat b\<rceil> = \<lceil>rat_of_int (int a) / rat_of_int (int b)\<rceil>" by simp
  also have "\<dots> = - ((- int a) div int b)" by (rule ceiling_divide_eq_div)
  finally show "0 < b \<Longrightarrow> ceil_div a b = Inr (- ((- int a) div int b))"
    by (simp add: ceil_div_def)
qed

lemma grid_rows_eq: "0 < max_per_row_of n \<Longrightarrow> grid_rows n = max 1 (- ((- int n) div int (max_per_row_of n)))"
proof -
  have "\<lceil>rat_of_nat n / rat_of_nat (max_per_row_of n)\<rceil> = \<lceil>rat_of_int (int n) / rat_of_int (int (max_per_row_of n))\<rceil>" by simp
  also have "\<dots> = - ((- int n) div int (max_per_row_of n))" by (rule ceiling_divide_eq_div)
  finally show ?thesis by (simp add: grid_rows_def)
qed

lemma max_per_row_pos: "0 < n \<Longrightarrow> 0 < max_per_row_of n"
  by (simp add: max_per_row_of_def)

lemma ceil_div_rows: "0 < n \<Longrightarrow> ceil_div n (max_per_row_of n) = Inr q \<Longrightarrow> max 1 q = grid_rows n"
  using max_per_row_pos[of n] by (auto simp: ceil_div_def grid_rows_def)

lemma ceil_div_ok: "0 < n \<Longrightarrow> \<exists>q. ceil_div n (max_per_row_of n) = Inr q"
  using max_per_row_pos[of n] by (auto simp: ceil_div_def)

lemma grid_cols_pos: "0 < n \<Longrightarrow> 1 \<le> grid_cols n"
  by (simp add: grid_cols_def max_per_row_of_def)

lemma needed_w_pos: "1 \<le> c \<Longrightarrow> 0 < needed_w c"
  by (simp add: needed_w_def pad_x_def box_w_def hgap_def)

lemma needed_h_pos: "1 \<le> r \<Longrightarrow> 0 < needed_h r"
  by (simp add: needed_h_def pad_y_def box_h_def vgap_def)

lemma grid_rows_pos: "1 \<le> grid_rows n"
  by (simp add: grid_rows_def)

lemma node_positions_Some:
  "name \<in> set ns \<or> pos name \<noteq> None \<Longrightarrow> node_positions m ns i pos name \<noteq> None"
  by (induction ns arbitrary: i pos) (auto simp: Let_def)

lemma node_positions_notin:
  "name \<notin> set ns \<Longrightarrow> node_positions m ns i pos name = pos name"
  by (induction ns arbitrary: i pos) (auto simp: Let_def)

lemma layout_pos_dom: "(layout_pos nodes name \<noteq> None) = (name \<in> set nodes)"
proof (cases "name \<in> set nodes")
  case True
  then show ?thesis
    using node_positions_Some[of name nodes Map.empty "max_per_row_of (length nodes)" 0]
    by (simp add: layout_pos_def)
next
  case False
  then show ?thesis
    using node_positions_notin[of name nodes "max_per_row_of (length nodes)" 0 Map.empty]
    by (simp add: layout_pos_def)
qed

lemma render_nodes_ok:
  "\<forall>n \<in> set ns. pos n \<noteq> None \<Longrightarrow>
   render_nodes pos style ns =
     Inr (concat (map (\<lambda>n. node_elems (fst (the (pos n))) (snd (the (pos n))) style n) ns))"
  by (induction ns) (auto split: prod.splits)


lemma true_div_ok:
  "b \<noteq> 0 \<Longrightarrow> \<not> float_overflows (of_int a / of_int b) \<Longrightarrow> true_div a b = Inr (of_int a / of_int b)"
  by (simp add: true_div_def)

lemma fit_scale_ok:
  assumes "nw \<noteq> 0" "nh \<noteq> 0" "\<not> float_overflows (of_int w / of_int nw)"
    "\<not> float_overflows (of_int h / of_int nh)"
  shows "fit_scale w h nw nh = Inr (min (min (of_int w / of_int nw) (of_int h / of_int nh)) 1)"
  using assms by (simp add: fit_scale_def true_div_ok Let_def)

lemma fit_scale_overflow:
  assumes "nw \<noteq> 0" "nh \<noteq> 0"
    "float_overflows (of_int w / of_int nw) \<or> float_overflows (of_int h / of_int nh)"
  shows "fit_scale w h nw nh = Inl OverflowError"
  using assms by (auto simp: fit_scale_def true_div_def)

lemma fit_scale_value:
  "fit_scale w h nw nh = Inr s \<Longrightarrow>
   s = min (min (of_int w / of_int nw) (of_int h / of_int nh)) 1 \<and> s \<le> 1"
  by (auto simp: fit_scale_def true_div_def Let_def split: if_splits)

lemma render_flow_svg_overflow:
  assumes "nodes \<noteq> []" "\<not> canvas_fits nodes w h"
  shows "render_flow_svg nodes edges style_arg w h = Inl OverflowError"
proof -
  let ?n = "length nodes"
  have n: "0 < ?n" using assms by simp
  obtain q where q: "ceil_div ?n (max_per_row_of ?n) = Inr q"
    using ceil_div_ok[OF n] by blast
  have rows: "max 1 q = grid_rows ?n" by (rule ceil_div_rows[OF n q])
  have nw: "needed_w (grid_cols ?n) \<noteq> 0"
    using needed_w_pos[OF grid_cols_pos[OF n]] by simp
  have nh: "needed_h (grid_rows ?n) \<noteq> 0"
    using needed_h_pos[OF grid_rows_pos[of ?n]] by simp
  have "fit_scale w h (needed_w (grid_cols ?n)) (needed_h (grid_rows ?n)) = Inl OverflowError"
    using assms(2) by (intro fit_scale_overflow[OF nw nh]) (auto simp: canvas_fits_def)
  then show ?thesis
    unfolding render_flow_svg_def using q rows by (simp add: Let_def)
qed

lemma render_flow_svg_doc:
  assumes "nodes \<noteq> []" "canvas_fits nodes w h"
  shows "render_flow_svg nodes edges style_arg w h =
           Inr (doc_of nodes edges (style_or_default style_arg) w h)"
proof -
  let ?n = "length nodes"
  have n: "0 < ?n" using assms by simp
  obtain q where q: "ceil_div ?n (max_per_row_of ?n) = Inr q"
    using ceil_div_ok[OF n] by blast
  have rows: "max 1 q = grid_rows ?n" by (rule ceil_div_rows[OF n q])
  have nw: "needed_w (grid_cols ?n) \<noteq> 0"
    using needed_w_pos[OF grid_cols_pos[OF n]] by simp
  have nh: "needed_h (grid_rows ?n) \<noteq> 0"
    using needed_h_pos[OF grid_rows_pos[of ?n]] by simp
  have boxes: "render_nodes (layout_pos nodes) (style_or_default style_arg) nodes =
      Inr (concat (map (\<lambda>n. node_elems (fst (the (layout_pos nodes n))) (snd (the (layout_pos nodes n)))
                          (style_or_default style_arg) n) nodes))"
    by (rule render_nodes_ok) (use layout_pos_dom in blast)
  have sc: "fit_scale w h (needed_w (grid_cols ?n)) (needed_h (grid_rows ?n)) =
      Inr (min (min (of_int w / of_int (needed_w (grid_cols ?n)))
                    (of_int h / of_int (needed_h (grid_rows ?n)))) 1)"
    using assms(2) by (intro fit_scale_ok[OF nw nh]) (simp_all add: canvas_fits_def)
  show ?thesis
    unfolding render_flow_svg_def
    using q rows sc boxes
    by (simp add: Let_def doc_of_def layout_pos_def[symmetric] style_or_default_def[symmetric])
qed



lemma first_index_nth: "s \<in> set ns \<Longrightarrow> first_index ns s < length ns \<and> ns ! first_index ns s = s"
  by (induction ns) auto

lemma first_index_eq_iff:
  "s \<in> set ns \<Longrightarrow> d \<in> set ns \<Longrightarrow> (first_index ns s = first_index ns d) = (s = d)"
  using first_index_nth by metis

lemma first_index_distinct: "distinct ns \<Longrightarrow> i < length ns \<Longrightarrow> first_index ns (ns ! i) = i"
proof (induction ns arbitrary: i)
  case Nil
  then show ?case by simp
next
  case (Cons a ns)
  then show ?case by (cases i) auto
qed







lemma edge_line_present:
  assumes "src \<in> set nodes" "dst \<in> set nodes" "pos src = Some a" "pos dst = Some b"
  shows "edge_line nodes pos col (src, dst) =
     Some (if first_index nodes src < first_index nodes dst
             then line_between (right_middle a) (left_middle b) col
           else if first_index nodes dst < first_index nodes src
             then line_between (left_middle a) (right_middle b) col
           else line_between (bottom_middle a) (top_middle b) col)"
  using assms
  by (cases a; cases b)
     (simp add: edge_line_def index_or_zero_def Let_def line_between_def right_middle_def
        left_middle_def bottom_middle_def top_middle_def)



lemma chain_canvas:
  "needed_w (grid_cols (length chain_nodes)) = 1320" "needed_h (grid_rows (length chain_nodes)) = 530"
  by (simp_all add: chain_nodes_def needed_w_def needed_h_def grid_cols_def grid_rows_eq
        max_per_row_of_def pad_x_def pad_y_def box_w_def box_h_def hgap_def vgap_def)

lemma canvas_fits_chain: "canvas_fits chain_nodes 1600 900" "canvas_fits chain_nodes 800 450"
  by (simp_all add: canvas_fits_def chain_canvas float_overflows_def)




lemma doc_of_head:
  "doc_of nodes edges style w h =
     SvgOpen w h (needed_w (grid_cols (length nodes))) (needed_h (grid_rows (length nodes)))
       # tl (doc_of nodes edges style 0 0)"
  by (simp add: doc_of_def)

text \<open>
  Claim C8, as it holds. When the fit scale is computed it is the minimum of the two ratios
  and 1, so it is at most 1, and its value is never applied: whenever a document is returned
  it is the opening tag, whose viewBox is the needed width and height, followed by a body
  that is the same for every requested width and height, whether the scale they give is
  below 1 or equal to 1. The computation is not without effect, though: for a non-empty node
  list the call returns exactly when both ratios are within the range of a double, and
  raises \<open>OverflowError\<close> otherwise (for no nodes it raises \<open>ZeroDivisionError\<close> earlier).
\<close>

theorem fit_scale_not_applied:
  "(case fit_scale width_px height_px nw nh of Inl e \<Rightarrow> True
    | Inr s \<Rightarrow> s = min (min (of_int width_px / of_int nw) (of_int height_px / of_int nh)) 1
               \<and> s \<le> 1)
   \<and> (\<exists>body. \<forall>w h. render_flow_svg nodes edges style_arg w h =
         (if nodes = [] then Inl ZeroDivisionError
          else if canvas_fits nodes w h
          then Inr (SvgOpen w h (needed_w (grid_cols (length nodes)))
                                (needed_h (grid_rows (length nodes))) # body)
          else Inl OverflowError))"
proof
  show "case fit_scale width_px height_px nw nh of Inl e \<Rightarrow> True
    | Inr s \<Rightarrow> s = min (min (of_int width_px / of_int nw) (of_int height_px / of_int nh)) 1
               \<and> s \<le> 1"
    using fit_scale_value[of width_px height_px nw nh] by (simp split: sum.split)
next
  let ?body = "tl (doc_of nodes edges (style_or_default style_arg) 0 0)"
  have "render_flow_svg nodes edges style_arg w h =
         (if nodes = [] then Inl ZeroDivisionError
          else if canvas_fits nodes w h
          then Inr (SvgOpen w h (needed_w (grid_cols (length nodes)))
                                (needed_h (grid_rows (length nodes))) # ?body)
          else Inl OverflowError)" for w h
  proof (cases "nodes = []")
    case True
    then show ?thesis by (simp add: render_flow_svg_def ceil_div_def max_per_row_of_def)
  next
    case ne: False
    show ?thesis
    proof (cases "canvas_fits nodes w h")
      case True
      have "render_flow_svg nodes edges style_arg w h
          = Inr (doc_of nodes edges (style_or_default style_arg) w h)"
        by (rule render_flow_svg_doc[OF ne True])
      also have "doc_of nodes edges (style_or_default style_arg) w h
          = SvgOpen w h (needed_w (grid_cols (length nodes))) (needed_h (grid_rows (length nodes)))
              # ?body"
        by (rule doc_of_head)
      finally show ?thesis using ne True by simp
    next
      case False
      then show ?thesis using ne render_flow_svg_overflow[OF ne False] by simp
    qed
  qed
  then show "\<exists>body. \<forall>w h. render_flow_svg nodes edges style_arg w h =
         (if nodes = [] then Inl ZeroDivisionError
          else if canvas_fits nodes w h
          then Inr (SvgOpen w h (needed_w (grid_cols (length nodes)))
                                (needed_h (grid_rows (length nodes))) # body)
          else Inl OverflowError)"
    by blast
qed

theorem fit_scale_not_applied_witness:
  "fit_scale 800 450 1320 530 = Inr (20 / 33) \<and> fit_scale 1600 900 1320 530 = Inr 1
   \<and> returns (render_flow_svg chain_nodes chain_edges None 800 450)
   \<and> render_flow_svg chain_nodes chain_edges None 800 450
       = Inr (SvgOpen 800 450 1320 530 # doc_rest (render_flow_svg chain_nodes chain_edges None 800 450))
   \<and> doc_rest (render_flow_svg chain_nodes chain_edges None 800 450)
       = doc_rest (render_flow_svg chain_nodes chain_edges None 1600 900)"
proof -
  have ne: "chain_nodes \<noteq> []" by (simp add: chain_nodes_def)
  from fit_scale_not_applied[of 800 450 1320 530 chain_nodes chain_edges None]
  obtain body where b: "\<forall>w h. render_flow_svg chain_nodes chain_edges None w h =
      (if canvas_fits chain_nodes w h then Inr (SvgOpen w h 1320 530 # body) else Inl OverflowError)"
    unfolding chain_canvas using ne by auto
  have s: "fit_scale 800 450 1320 530 = Inr (20 / 33) \<and> fit_scale 1600 900 1320 530 = Inr 1"
    by (simp add: fit_scale_def true_div_def float_overflows_def)
  show ?thesis using s b canvas_fits_chain by (simp add: returns_def doc_rest_def)
qed

text \<open>
  Claim C8 as worded, for every input, fails: the scale that is computed and thrown away
  makes the call raise for a requested width beyond the range of a double, where the same
  nodes and edges give a document at the default width.
\<close>

theorem fit_scale_raises:
  "returns (render_flow_svg [ustr ''a''] [] None 1600 900)
   \<and> render_flow_svg [ustr ''a''] [] None (10 ^ 400) 900 = Inl OverflowError"
proof -
  have one: "needed_w (grid_cols (length [ustr ''a''])) = 520"
    "needed_h (grid_rows (length [ustr ''a''])) = 330"
    by (simp_all add: needed_w_def needed_h_def grid_cols_def grid_rows_eq max_per_row_of_def
          pad_x_def pad_y_def box_w_def box_h_def hgap_def vgap_def)
  have "float_overflows (of_int (10 ^ 400) / of_int 520)"
    by (simp add: float_overflows_def)
  then have "\<not> canvas_fits [ustr ''a''] (10 ^ 400) 900"
    unfolding canvas_fits_def one by simp
  then have "render_flow_svg [ustr ''a''] [] None (10 ^ 400) 900 = Inl OverflowError"
    by (intro render_flow_svg_overflow) simp_all
  moreover have "canvas_fits [ustr ''a''] 1600 900"
    unfolding canvas_fits_def one by (simp add: float_overflows_def)
  then have "returns (render_flow_svg [ustr ''a''] [] None 1600 900)"
    by (simp add: render_flow_svg_doc returns_def)
  ultimately show ?thesis by simp
qed

text \<open>
  Claim C3, at zero nodes. The layout is claimed never to fail for any node count from 0 on,
  but for the empty node list \<open>max_per_row\<close> is 0 and the division in the row count raises
  \<open>ZeroDivisionError\<close>, although the two \<open>max(\<dots>, 1)\<close> guards of the source are there for
  exactly this case. (For one node or more the claim holds: \<open>layout_grid_no_overlap\<close>.)
\<close>

theorem render_flow_svg_no_nodes:
  "render_flow_svg [] edges style_arg width_px height_px = Inl ZeroDivisionError"
  by (simp add: render_flow_svg_def ceil_div_def max_per_row_of_def)


lemma node_positions_distinct:
  "distinct ns \<Longrightarrow> k < length ns \<Longrightarrow>
   node_positions m ns i pos (ns ! k) =
     Some (pad_x + int ((i + k) mod m) * (box_w + hgap), pad_y + int ((i + k) div m) * (box_h + vgap))"
proof (induction ns arbitrary: i pos k)
  case Nil
  then show ?case by simp
next
  case (Cons a ns)
  show ?case
  proof (cases k)
    case 0
    have "a \<notin> set ns" using Cons.prems by simp
    then show ?thesis using 0 by (simp add: Let_def node_positions_notin)
  next
    case (Suc k')
    then have "k' < length ns" "distinct ns" using Cons.prems by auto
    from Cons.IH[OF this(2) this(1)] show ?thesis using Suc by (simp add: Let_def)
  qed
qed

lemma layout_pos_distinct:
  "distinct nodes \<Longrightarrow> i < length nodes \<Longrightarrow>
   layout_pos nodes (nodes ! i) = Some (grid_cell (length nodes) i)"
  using node_positions_distinct[of nodes i "max_per_row_of (length nodes)" 0 Map.empty]
  by (simp add: layout_pos_def grid_cell_def)

lemma int_mult_gap: "(a::nat) < b \<Longrightarrow> int a * c + c \<le> int b * c" if "0 \<le> c" for c :: int
proof -
  assume "a < b"
  then have "int a + 1 \<le> int b" by simp
  then have "(int a + 1) * c \<le> int b * c" using that by (rule mult_right_mono)
  then show ?thesis by (simp add: algebra_simps)
qed

lemma grid_cells_disjoint:
  assumes "0 < n" "i \<noteq> j"
  shows "\<not> boxes_overlap (grid_cell n i) (grid_cell n j)"
proof -
  let ?m = "max_per_row_of n"
  have m: "0 < ?m" using assms(1) by (rule max_per_row_pos)
  have "i mod ?m \<noteq> j mod ?m \<or> i div ?m \<noteq> j div ?m"
    using assms(2) by (metis div_mult_mod_eq)
  then consider "i mod ?m < j mod ?m" | "j mod ?m < i mod ?m"
    | "i div ?m < j div ?m" | "j div ?m < i div ?m" by linarith
  then show ?thesis
  proof cases
    case 1
    from int_mult_gap[OF _ this, of 400] show ?thesis
      by (simp add: boxes_overlap_def grid_cell_def box_w_def hgap_def)
  next
    case 2
    from int_mult_gap[OF _ this, of 400] show ?thesis
      by (simp add: boxes_overlap_def grid_cell_def box_w_def hgap_def)
  next
    case 3
    from int_mult_gap[OF _ this, of 200] show ?thesis
      by (simp add: boxes_overlap_def grid_cell_def box_h_def vgap_def)
  next
    case 4
    from int_mult_gap[OF _ this, of 200] show ?thesis
      by (simp add: boxes_overlap_def grid_cell_def box_h_def vgap_def)
  qed
qed

lemma node_box_in_elems:
  "node_box (x, y) style \<in> set (node_elems x y style name)"
  by (simp add: node_box_def node_elems_def Let_def)

lemma node_box_in_doc:
  assumes "name \<in> set nodes" "layout_pos nodes name = Some p"
  shows "node_box p style \<in> set (doc_of nodes edges style w h)"
proof -
  have "node_box (fst p, snd p) style \<in> set (node_elems (fst p) (snd p) style name)"
    by (rule node_box_in_elems)
  then have "node_box p style \<in>
      set (node_elems (fst (the (layout_pos nodes name))) (snd (the (layout_pos nodes name))) style name)"
    using assms(2) by simp
  then show ?thesis using assms(1) by (auto simp: doc_of_def)
qed

lemma filter_node_rect_elems:
  "filter is_node_rect (node_elems x y style name) = [node_box (x, y) style]"
  by (auto simp: node_elems_def node_box_def Let_def filter_empty_conv)

lemma filter_node_rect_lines:
  "filter is_node_rect (List.map_filter (edge_line nodes pos col) es) = []"
proof -
  have "\<not> is_node_rect x" if "edge_line nodes pos col e = Some x" for e x
    using that by (auto simp: edge_line_def Let_def split: prod.splits option.splits if_splits)
  then show ?thesis
    by (induction es) (auto simp: List.map_filter_simps split: option.splits)
qed

lemma filter_node_rect_nodes:
  "filter is_node_rect (concat (map (\<lambda>n. node_elems (fst (f n)) (snd (f n)) style n) ns))
     = map (\<lambda>n. node_box (f n) style) ns"
  by (induction ns) (simp_all add: filter_node_rect_elems)

lemma doc_of_node_rects:
  "filter is_node_rect (doc_of nodes edges style w h)
     = map (\<lambda>n. node_box (the (layout_pos nodes n)) style) nodes"
  by (simp add: doc_of_def filter_node_rect_lines filter_node_rect_nodes)

text \<open>
  The layout for one node or more, with distinct labels: the document has exactly one node
  rectangle per node, node \<open>i\<close> at row \<open>i div max_per_row\<close> and column \<open>i mod max_per_row\<close>
  of the grid, and no two of these rectangles overlap.
\<close>

lemma layout_grid_no_overlap:
  assumes "nodes \<noteq> []" "distinct nodes" "canvas_fits nodes width_px height_px"
  shows "\<exists>doc. render_flow_svg nodes edges style_arg width_px height_px = Inr doc
      \<and> filter is_node_rect doc =
          map (\<lambda>i. node_box (grid_cell (length nodes) i) (style_or_default style_arg)) [0 ..< length nodes]
      \<and> (\<forall>i < length nodes. \<forall>j < length nodes. i \<noteq> j \<longrightarrow>
            \<not> boxes_overlap (grid_cell (length nodes) i) (grid_cell (length nodes) j))"
proof -
  let ?st = "style_or_default style_arg"
  have "map (\<lambda>n. node_box (the (layout_pos nodes n)) ?st) nodes
      = map (\<lambda>i. node_box (the (layout_pos nodes (nodes ! i))) ?st) [0 ..< length nodes]"
    by (rule nth_equalityI) simp_all
  also have "\<dots> = map (\<lambda>i. node_box (grid_cell (length nodes) i) ?st) [0 ..< length nodes]"
    using assms(2) by (simp add: layout_pos_distinct)
  finally have boxes: "filter is_node_rect (doc_of nodes edges ?st width_px height_px) =
      map (\<lambda>i. node_box (grid_cell (length nodes) i) ?st) [0 ..< length nodes]"
    by (simp add: doc_of_node_rects)
  have "0 < length nodes" using assms(1) by simp
  then show ?thesis
    using render_flow_svg_doc[OF assms(1,3)] boxes grid_cells_disjoint by auto
qed


lemma map_filter_mem: "x \<in> set xs \<Longrightarrow> f x = Some y \<Longrightarrow> y \<in> set (List.map_filter f xs)"
  by (induction xs) (auto simp: List.map_filter_simps split: option.splits)

text \<open>
  Claim C4. For every edge whose source and destination both occur in the node list, with
  their positions taken as \<open>nodes.index\<close> gives them, and a requested size within reach of
  the fit scale (so that a document is returned): the document contains the box of the
  source and the box of the destination (at the grid cells of those positions when the
  labels are distinct) and the edge's line, which runs from the source's right-middle point
  to the destination's left-middle point when the destination comes later, from left-middle
  to right-middle when it comes earlier, and from bottom-middle to top-middle when the two
  positions are equal.
\<close>

theorem edge_anchor_rule:
  assumes "(src, dst) \<in> set (iter_edges edges)" "src \<in> set nodes" "dst \<in> set nodes"
    "canvas_fits nodes width_px height_px"
  shows "\<exists>doc a b. render_flow_svg nodes edges style_arg width_px height_px = Inr doc
     \<and> layout_pos nodes src = Some a \<and> layout_pos nodes dst = Some b
     \<and> node_box a (style_or_default style_arg) \<in> set doc
     \<and> node_box b (style_or_default style_arg) \<in> set doc
     \<and> (distinct nodes \<longrightarrow> a = grid_cell (length nodes) (first_index nodes src)
                           \<and> b = grid_cell (length nodes) (first_index nodes dst))
     \<and> (if first_index nodes src < first_index nodes dst
           then line_between (right_middle a) (left_middle b) (node_line_rgb (style_or_default style_arg))
         else if first_index nodes dst < first_index nodes src
           then line_between (left_middle a) (right_middle b) (node_line_rgb (style_or_default style_arg))
         else line_between (bottom_middle a) (top_middle b) (node_line_rgb (style_or_default style_arg)))
        \<in> set doc"
proof -
  let ?st = "style_or_default style_arg"
  let ?doc = "doc_of nodes edges ?st width_px height_px"
  have ne: "nodes \<noteq> []" using assms(2) by auto
  have r: "render_flow_svg nodes edges style_arg width_px height_px = Inr ?doc"
    by (rule render_flow_svg_doc[OF ne assms(4)])
  obtain a b where a: "layout_pos nodes src = Some a" and b: "layout_pos nodes dst = Some b"
    using assms(2,3) layout_pos_dom by blast
  have ba: "node_box a ?st \<in> set ?doc" by (rule node_box_in_doc[OF assms(2) a])
  have bb: "node_box b ?st \<in> set ?doc" by (rule node_box_in_doc[OF assms(3) b])
  have g: "a = grid_cell (length nodes) (first_index nodes src)
         \<and> b = grid_cell (length nodes) (first_index nodes dst)" if d: "distinct nodes"
  proof -
    from first_index_nth[OF assms(2)] layout_pos_distinct[OF d, of "first_index nodes src"] a
    have 1: "a = grid_cell (length nodes) (first_index nodes src)" by simp
    from first_index_nth[OF assms(3)] layout_pos_distinct[OF d, of "first_index nodes dst"] b
    have 2: "b = grid_cell (length nodes) (first_index nodes dst)" by simp
    from 1 2 show ?thesis by simp
  qed
  let ?line = "if first_index nodes src < first_index nodes dst
           then line_between (right_middle a) (left_middle b) (node_line_rgb ?st)
         else if first_index nodes dst < first_index nodes src
           then line_between (left_middle a) (right_middle b) (node_line_rgb ?st)
         else line_between (bottom_middle a) (top_middle b) (node_line_rgb ?st)"
  have "edge_line nodes (layout_pos nodes) (node_line_rgb ?st) (src, dst) = Some ?line"
    by (rule edge_line_present[OF assms(2,3) a b])
  then have "?line \<in> set (List.map_filter (edge_line nodes (layout_pos nodes) (node_line_rgb ?st))
      (iter_edges edges))"
    using assms(1) by (rule map_filter_mem[rotated])
  then have l: "?line \<in> set ?doc" by (simp add: doc_of_def)
  from r a b ba bb g l show ?thesis by blast
qed

lemma chain_layout:
  "layout_pos chain_nodes (ustr ''Step 2'') = Some (900, 110)"
  "layout_pos chain_nodes (ustr ''Output'') = Some (100, 310)"
  by (simp_all add: layout_pos_def chain_nodes_def max_per_row_of_def Let_def ustr_def
        pad_x_def pad_y_def box_w_def box_h_def hgap_def vgap_def)

theorem edge_anchor_rule_witness:
  "(ustr ''Step 2'', ustr ''Output'') \<in> set (iter_edges chain_edges)
   \<and> ustr ''Step 2'' \<in> set chain_nodes \<and> ustr ''Output'' \<in> set chain_nodes
   \<and> canvas_fits chain_nodes 1600 900
   \<and> first_index chain_nodes (ustr ''Step 2'') = 2
   \<and> first_index chain_nodes (ustr ''Output'') = 3
   \<and> layout_pos chain_nodes (ustr ''Step 2'') = Some (900, 110)
   \<and> layout_pos chain_nodes (ustr ''Output'') = Some (100, 310)
   \<and> SvgLine 1220 165 100 365 (79, 129, 189)
       \<in> set (doc_elems (render_flow_svg chain_nodes chain_edges None 1600 900))"
proof -
  have e: "(ustr ''Step 2'', ustr ''Output'') \<in> set (iter_edges chain_edges)"
    by (simp add: chain_edges_def)
  have s: "ustr ''Step 2'' \<in> set chain_nodes" and d: "ustr ''Output'' \<in> set chain_nodes"
    by (simp_all add: chain_nodes_def)
  have i: "first_index chain_nodes (ustr ''Step 2'') = 2" "first_index chain_nodes (ustr ''Output'') = 3"
    by (simp_all add: chain_nodes_def ustr_def)
  from edge_anchor_rule[OF e s d canvas_fits_chain(1), of None]
  obtain doc where r: "render_flow_svg chain_nodes chain_edges None 1600 900 = Inr doc"
    and l: "line_between (right_middle (900, 110)) (left_middle (100, 310))
              (node_line_rgb (style_or_default None)) \<in> set doc"
    unfolding chain_layout i by auto
  have "line_between (right_middle (900, 110)) (left_middle (100, 310))
          (node_line_rgb (style_or_default None)) = SvgLine 1220 165 100 365 (79, 129, 189)"
    by (simp add: line_between_def right_middle_def left_middle_def style_or_default_def
          default_style_def box_w_def box_h_def)
  with r l e s d i chain_layout canvas_fits_chain(1) show ?thesis by (simp add: doc_elems_def)
qed

section \<open>The normaliser\<close>

subsection \<open>Strings\<close>

lemma isspace_NL: "isspace NL" by (simp add: isspace_def NL_def)
lemma not_isspace_HYPHEN: "\<not> isspace HYPHEN" by (simp add: isspace_def HYPHEN_def)
lemma HYPHEN_ne_NL: "HYPHEN \<noteq> NL" "SP \<noteq> NL" "HYPHEN \<noteq> BULLET" "SP \<noteq> BULLET"
  by (simp_all add: HYPHEN_def NL_def SP_def BULLET_def)

lemma split_on_ne: "split_on c s \<noteq> []"
  by (induction s) (auto split: list.splits)

lemma split_on_no_sep: "x \<in> set (split_on c s) \<Longrightarrow> c \<notin> set x"
proof (induction s arbitrary: x)
  case Nil
  then show ?case by simp
next
  case (Cons a s)
  then show ?case by (auto split: if_splits list.splits)
qed

lemma split_on_single: "c \<notin> set x \<Longrightarrow> split_on c x = [x]"
  by (induction x) auto

lemma split_on_append: "c \<notin> set x \<Longrightarrow> split_on c (x @ c # rest) = x # split_on c rest"
  by (induction x) (auto simp: split_on_ne split: list.splits)

lemma split_on_join:
  "xs \<noteq> [] \<Longrightarrow> \<forall>x \<in> set xs. c \<notin> set x \<Longrightarrow> split_on c (join [c] xs) = xs"
proof (induction "[c]" xs rule: join.induct)
  case 1
  then show ?case by simp
next
  case (2 x)
  then show ?case by (simp add: split_on_single)
next
  case (3 x y ys)
  then show ?case by (simp add: split_on_append)
qed

lemma split_on_piece: "a \<in> set s \<Longrightarrow> a \<noteq> c \<Longrightarrow> \<exists>p \<in> set (split_on c s). a \<in> set p"
proof (induction s)
  case Nil
  then show ?case by simp
next
  case (Cons x s)
  then show ?case by (cases "split_on c s") (auto simp: split_on_ne)
qed

lemma set_strip: "set (strip s) \<subseteq> set s"
proof -
  have "set (dropWhile isspace (rev (dropWhile isspace s))) \<subseteq> set (rev (dropWhile isspace s))"
    by (rule set_dropWhileD[THEN subsetI])
  also have "\<dots> \<subseteq> set s" using set_dropWhileD by fastforce
  finally show ?thesis by (simp add: strip_def)
qed

lemma mem_dropWhile: "a \<in> set xs \<Longrightarrow> \<not> P a \<Longrightarrow> a \<in> set (dropWhile P xs)"
  by (induction xs) auto

lemma strip_keeps: "a \<in> set s \<Longrightarrow> \<not> isspace a \<Longrightarrow> a \<in> set (strip s)"
  by (simp add: strip_def mem_dropWhile)

lemma strip_has_nonspace: "strip s \<noteq> [] \<Longrightarrow> \<exists>a \<in> set (strip s). \<not> isspace a"
proof -
  assume ne: "strip s \<noteq> []"
  let ?u = "dropWhile isspace (rev (dropWhile isspace s))"
  have u: "?u \<noteq> []" using ne by (simp add: strip_def)
  then have "\<not> isspace (hd ?u)" by (rule hd_dropWhile)
  moreover have "hd ?u \<in> set (strip s)" using u by (simp add: strip_def)
  ultimately show ?thesis by blast
qed


lemma set_replace_bullet_sp: "set (replace_bullet_sp l) \<subseteq> set l \<union> {HYPHEN, SP}"
  by (induction l rule: replace_bullet_sp.induct) auto

lemma replace_bullet_sp_hd:
  "a \<noteq> BULLET \<Longrightarrow> \<exists>r. replace_bullet_sp (a # cs) = a # r"
  by (cases cs) auto

lemma replace_bullet_sp_prefix:
  "take 2 l = [HYPHEN, SP] \<or> take 2 l = [BULLET, SP] \<Longrightarrow>
   take 2 (replace_bullet_sp l) = [HYPHEN, SP]"
proof -
  assume h: "take 2 l = [HYPHEN, SP] \<or> take 2 l = [BULLET, SP]"
  then obtain a cs where l: "l = a # SP # cs" and a: "a = HYPHEN \<or> a = BULLET"
    by (cases l; cases "tl l") auto
  show ?thesis
  proof (cases "a = BULLET")
    case True
    then show ?thesis using l by simp
  next
    case False
    then have ah: "a = HYPHEN" using a by simp
    obtain r where r: "replace_bullet_sp (SP # cs) = SP # r"
      using replace_bullet_sp_hd[OF HYPHEN_ne_NL(4)] by blast
    show ?thesis using l ah r HYPHEN_ne_NL(3) by simp
  qed
qed

lemma fix_line_prefix: "take 2 (fix_line l) = [HYPHEN, SP]"
  using replace_bullet_sp_prefix[of l] by (auto simp: fix_line_def)

lemma fix_line_no_NL: "NL \<notin> set l \<Longrightarrow> NL \<notin> set (fix_line l)"
  using set_replace_bullet_sp[of l] HYPHEN_ne_NL(1,2) by (auto simp: fix_line_def)

lemma set_join_mem: "x \<in> set xs \<Longrightarrow> set x \<subseteq> set (join sep xs)"
  by (induction sep xs rule: join.induct) auto

lemma HYPHEN_in_key_points: "HYPHEN \<in> set key_points"
  by (simp add: key_points_def ustr_def HYPHEN_def)

lemma coerce_text_alt:
  "coerce_text c = join [NL] (map fix_line (take 8 (filter (\<lambda>l. l \<noteq> []) (map strip (split_on NL (split_paragraph c))))))"
  unfolding coerce_text_def Let_def by (rule refl)

lemma split_paragraph_nonspace: "\<exists>a \<in> set (split_paragraph c). \<not> isspace a"
proof -
  define text1 where "text1 = (if strip c = [] then key_points else strip c)"
  have t1: "\<exists>a \<in> set text1. \<not> isspace a"
  proof (cases "strip c = []")
    case True
    then show ?thesis using HYPHEN_in_key_points not_isspace_HYPHEN by (auto simp: text1_def)
  next
    case False
    then show ?thesis using strip_has_nonspace[of c] by (simp add: text1_def)
  qed
  define parts where "parts = filter (\<lambda>p. p \<noteq> [])
      (map strip (split_on PERIOD (filter (\<lambda>x. x \<noteq> BULLET) text1)))"
  have c2: "split_paragraph c = (if NL \<notin> set text1
             then (if 2 \<le> length parts
                   then join [NL] (map (\<lambda>p. [HYPHEN, SP] @ p) (take 6 parts))
                   else [HYPHEN, SP] @ text1)
             else text1)"
    unfolding split_paragraph_def text1_def parts_def Let_def by (rule refl)
  show ?thesis
  proof (cases "NL \<in> set text1")
    case True
    then show ?thesis using t1 c2 by simp
  next
    case nl: False
    show ?thesis
    proof (cases "2 \<le> length parts")
      case True
      then obtain p ps where p: "parts = p # ps" by (cases parts) auto
      have "[HYPHEN, SP] @ p \<in> set (map (\<lambda>p. [HYPHEN, SP] @ p) (take 6 parts))"
        using p by simp
      from set_join_mem[OF this, of "[NL]"]
      have "HYPHEN \<in> set (join [NL] (map (\<lambda>p. [HYPHEN, SP] @ p) (take 6 parts)))" by auto
      moreover have "split_paragraph c = join [NL] (map (\<lambda>p. [HYPHEN, SP] @ p) (take 6 parts))"
        using c2 nl True by (simp only: if_True if_False not_False_eq_True not_not)
      ultimately have "HYPHEN \<in> set (split_paragraph c)" by (simp only:)
      then show ?thesis using not_isspace_HYPHEN by blast
    next
      case False
      then show ?thesis using c2 nl not_isspace_HYPHEN by auto
    qed
  qed
qed

lemma coerce_lines_ne:
  "filter (\<lambda>l. l \<noteq> []) (map strip (split_on NL (split_paragraph c))) \<noteq> []"
proof -
  obtain a where a: "a \<in> set (split_paragraph c)" "\<not> isspace a"
    using split_paragraph_nonspace by blast
  then have "a \<noteq> NL" using isspace_NL by auto
  from split_on_piece[OF a(1) this]
  obtain p where p: "p \<in> set (split_on NL (split_paragraph c))" "a \<in> set p" by blast
  have "a \<in> set (strip p)" using strip_keeps[OF p(2) a(2)] .
  then have "strip p \<noteq> []" by auto
  then have "strip p \<in> set (filter (\<lambda>l. l \<noteq> []) (map strip (split_on NL (split_paragraph c))))"
    using p(1) by auto
  then show ?thesis by (metis empty_iff list.set(1))
qed

lemma coerce_lines_no_NL:
  "l \<in> set (filter (\<lambda>l. l \<noteq> []) (map strip (split_on NL (split_paragraph c)))) \<Longrightarrow> NL \<notin> set l"
  using split_on_no_sep set_strip by fastforce

lemma split_coerce_text:
  "split_on NL (coerce_text c) =
     map fix_line (take 8 (filter (\<lambda>l. l \<noteq> []) (map strip (split_on NL (split_paragraph c)))))"
proof -
  let ?lines = "filter (\<lambda>l. l \<noteq> []) (map strip (split_on NL (split_paragraph c)))"
  have ne: "map fix_line (take 8 ?lines) \<noteq> []" using coerce_lines_ne[of c] by simp
  have nl: "\<forall>x \<in> set (map fix_line (take 8 ?lines)). NL \<notin> set x"
  proof
    fix x assume "x \<in> set (map fix_line (take 8 ?lines))"
    then obtain l where l: "l \<in> set (take 8 ?lines)" "x = fix_line l" by auto
    from l(1) have "l \<in> set ?lines" by (rule in_set_takeD)
    then have "NL \<notin> set l" by (rule coerce_lines_no_NL)
    then show "NL \<notin> set x" using l(2) fix_line_no_NL by simp
  qed
  show ?thesis unfolding coerce_text_alt by (rule split_on_join[OF ne nl])
qed

lemma coerce_text_bulleted: "hyphen_bulleted (coerce_text c)"
  unfolding hyphen_bulleted_def split_coerce_text
  by (simp add: list_all_iff fix_line_prefix)

subsection \<open>The loops and the fallback deck\<close>

lemma pad_slides_eq:
  "pad_slides ss topic n = ss @ map (pad_slide topic) [length ss ..< nat n]"
proof (induction ss topic n rule: pad_slides.induct)
  case (1 ss topic n)
  show ?case
  proof (cases "int (length ss) < n")
    case True
    then have lt: "length ss < nat n" by linarith
    have "pad_slides ss topic n = pad_slides (ss @ [pad_slide topic (length ss)]) topic n"
      using True by (subst pad_slides.simps) simp
    also have "\<dots> = (ss @ [pad_slide topic (length ss)])
                   @ map (pad_slide topic) [Suc (length ss) ..< nat n]"
      using 1[OF True] by simp
    also have "\<dots> = ss @ map (pad_slide topic) [length ss ..< nat n]"
      using lt by (simp add: upt_conv_Cons)
    finally show ?thesis .
  next
    case False
    then have "nat n \<le> length ss" by linarith
    then show ?thesis using False by (subst pad_slides.simps) simp
  qed
qed

lemma mock_pad_eq:
  "mock_pad ss n = ss @ map mock_step [length ss ..< nat (max (n - 1) 3)]"
proof (induction ss n rule: mock_pad.induct)
  case (1 ss n)
  show ?case
  proof (cases "int (length ss) < max (n - 1) 3")
    case True
    then have lt: "length ss < nat (max (n - 1) 3)" by linarith
    have "mock_pad ss n = mock_pad (ss @ [mock_step (length ss)]) n"
      using True by (subst mock_pad.simps) simp
    also have "\<dots> = (ss @ [mock_step (length ss)])
                   @ map mock_step [Suc (length ss) ..< nat (max (n - 1) 3)]"
      using 1[OF True] by simp
    also have "\<dots> = ss @ map mock_step [length ss ..< nat (max (n - 1) 3)]"
      using lt by (simp add: upt_conv_Cons)
    finally show ?thesis .
  next
    case False
    then have "nat (max (n - 1) 3) \<le> length ss" by linarith
    then show ?thesis using False by (subst mock_pad.simps) simp
  qed
qed

lemma length_pad_slides:
  "length (pad_slides ss topic n) = max (length ss) (nat n)"
  by (simp add: pad_slides_eq)

lemma valid_pad_slide: "valid_slide (pad_slide topic k)"
  by (simp add: valid_slide_def pad_slide_def slide_of_def)

lemma valid_mock_step: "valid_slide (mock_step k)"
  by (simp add: valid_slide_def mock_step_def slide_of_def)

lemma valid_mock_summary: "valid_slide mock_summary"
  by (simp add: valid_slide_def mock_summary_def slide_of_def)

lemma valid_mock_base: "list_all valid_slide (mock_base topic)"
  by (simp add: valid_slide_def mock_base_def slide_of_def mock_diagram_def)

lemma length_mock_base: "length (mock_base topic) = 3"
  by (simp add: mock_base_def)

text \<open>The slides of the fallback deck, before the final cut.\<close>

lemma mock_all_eq:
  "mock_pad (mock_base topic) n @ [mock_summary]
     = mock_base topic @ map mock_step [3 ..< nat (max (n - 1) 3)] @ [mock_summary]"
  by (simp add: mock_pad_eq length_mock_base)

lemma valid_mock_all: "list_all valid_slide (mock_pad (mock_base topic) n @ [mock_summary])"
  using valid_mock_base[of topic]
  by (auto simp: mock_all_eq list_all_iff valid_mock_step valid_mock_summary)

lemma length_mock_all:
  "length (mock_pad (mock_base topic) n @ [mock_summary]) = nat (max (n - 1) 3) + 1"
  by (simp add: mock_all_eq length_mock_base)

lemma list_all_take: "list_all P xs \<Longrightarrow> list_all P (take k xs)"
  by (auto simp: list_all_iff dest: in_set_takeD)

lemma list_all_py_take: "list_all P xs \<Longrightarrow> list_all P (py_take k xs)"
  by (simp add: py_take_def list_all_take)

lemma mock_validates:
  "1 \<le> n \<Longrightarrow> model_validate (mock_presentation topic n) = Inr (mock_presentation topic n)"
proof -
  assume n: "1 \<le> n"
  let ?all = "mock_pad (mock_base topic) n @ [mock_summary]"
  have "length (py_take n ?all) = min (nat n) (length ?all)" using n by (simp add: py_take_def)
  then have "py_take n ?all \<noteq> []" using n length_mock_all[of topic n] by auto
  moreover have "list_all valid_slide (py_take n ?all)"
    by (rule list_all_py_take[OF valid_mock_all])
  ultimately show ?thesis by (simp add: model_validate_def mock_presentation_def)
qed

lemma mock_slides_ge4:
  "4 \<le> n \<Longrightarrow> slides (mock_presentation topic n)
     = mock_base topic @ map mock_step [3 ..< nat (n - 1)] @ [mock_summary]"
proof -
  assume n: "4 \<le> n"
  have m: "max (n - 1) 3 = n - 1" using n by linarith
  have "length (mock_base topic @ map mock_step [3 ..< nat (n - 1)] @ [mock_summary]) = nat n"
    using n by (auto simp: length_mock_base)
  then show ?thesis using n
    by (simp add: mock_presentation_def mock_all_eq m py_take_def)
qed

lemma mock_four_invariants:
  "4 \<le> n \<Longrightarrow> four_invariants (mock_presentation topic n) n"
proof -
  assume n: "4 \<le> n"
  have len: "int (length (mock_base topic @ map mock_step [3 ..< nat (n - 1)] @ [mock_summary])) = n"
    using n by (auto simp: length_mock_base)
  have hd: "slide_type (hd (mock_base topic @ map mock_step [3 ..< nat (n - 1)] @ [mock_summary])) = Intro"
    by (simp add: mock_base_def slide_of_def)
  have la: "slide_type (last (mock_base topic @ map mock_step [3 ..< nat (n - 1)] @ [mock_summary])) = Summary"
    by (simp add: mock_summary_def slide_of_def)
  have fl: "flow_with_diagram (mock_base topic @ map mock_step [3 ..< nat (n - 1)] @ [mock_summary])"
    by (simp add: flow_with_diagram_def mock_base_def slide_of_def)
  show ?thesis unfolding four_invariants_def mock_slides_ge4[OF n]
    using len hd la fl by blast
qed

subsection \<open>The steps of the repair\<close>

lemma list_all_update: "list_all P ss \<Longrightarrow> P x \<Longrightarrow> list_all P (ss[i := x])"
  using set_update_subset_insert[of ss i x] by (auto simp: list_all_iff)

lemma force_intro_eq:
  "ss \<noteq> [] \<Longrightarrow> force_intro ss = Inr (ss[0 := (ss ! 0)\<lparr>slide_type := Intro\<rparr>])"
proof -
  assume ne: "ss \<noteq> []"
  show ?thesis
  proof (cases "slide_type (ss ! 0) = Intro")
    case True
    then have e: "(ss ! 0)\<lparr>slide_type := Intro\<rparr> = ss ! 0" by (cases "ss ! 0") simp
    have "ss[0 := (ss ! 0)\<lparr>slide_type := Intro\<rparr>] = ss" unfolding e by (rule list_update_id)
    moreover have "force_intro ss = Inr ss" using ne True by (simp add: force_intro_def)
    ultimately show ?thesis by (simp only:)
  next
    case False
    then show ?thesis using ne by (simp add: force_intro_def)
  qed
qed

lemma force_summary_cases:
  "ss \<noteq> [] \<Longrightarrow>
   \<exists>y. force_summary ss = Inr (ss[length ss - 1 := y]) \<and> slide_type y = Summary
       \<and> diagram y = diagram (ss ! (length ss - 1))"
proof -
  assume ne: "ss \<noteq> []"
  show ?thesis
  proof (cases "slide_type (ss ! (length ss - 1)) = Summary")
    case True
    then have "force_summary ss = Inr (ss[length ss - 1 := ss ! (length ss - 1)])"
      using ne by (simp add: force_summary_def Let_def)
    then show ?thesis using True by blast
  next
    case False
    then have "force_summary ss = Inr (ss[length ss - 1 :=
        (ss ! (length ss - 1))\<lparr>slide_type := Summary, title := ustr ''Summary''\<rparr>])"
      using ne by (simp add: force_summary_def Let_def)
    then show ?thesis by force
  qed
qed

lemma ensure_flow_cases:
  assumes "2 \<le> length ss"
  shows "(ensure_flow ss = Inr ss \<and> has_flow ss)
       \<or> (\<exists>m x. ensure_flow ss = Inr (ss[m := x]) \<and> 1 \<le> m \<and> m < length ss
              \<and> (3 \<le> length ss \<longrightarrow> m < length ss - 1)
              \<and> slide_type x = Flow \<and> diagram x = Some basic_diagram)"
proof (cases "has_flow ss")
  case True
  then show ?thesis by (simp add: ensure_flow_def)
next
  case False
  define mid where "mid = max 1 (min (int (length ss) - 2) (int (length ss) div 2))"
  have m1: "1 \<le> mid" by (simp add: mid_def)
  have m2: "mid < int (length ss)" using assms by (auto simp: mid_def)
  have m3: "3 \<le> length ss \<longrightarrow> mid < int (length ss) - 1" by (auto simp: mid_def)
  let ?x = "(ss ! nat mid)\<lparr>slide_type := Flow, title := ustr ''Process Flow'',
                          diagram := Some basic_diagram\<rparr>"
  have nm: "\<not> int (length ss) \<le> mid" using m2 by simp
  have "ensure_flow ss = Inr (ss[nat mid := ?x])"
    using False nm unfolding ensure_flow_def Let_def mid_def by (simp only: if_False)
  moreover have "1 \<le> nat mid" "nat mid < length ss" "3 \<le> length ss \<longrightarrow> nat mid < length ss - 1"
    using m1 m2 m3 by linarith+
  moreover have "slide_type ?x = Flow" "diagram ?x = Some basic_diagram" by simp_all
  ultimately show ?thesis by blast
qed

lemma valid_basic: "diagram x = Some basic_diagram \<Longrightarrow> valid_slide x"
  by (simp add: valid_slide_def basic_diagram_def)

lemma coerce_slide_type [simp]: "slide_type (coerce_slide s) = slide_type s"
  by (simp add: coerce_slide_def)

lemma coerce_slide_diagram [simp]: "diagram (coerce_slide s) = diagram s"
  by (simp add: coerce_slide_def)

lemma valid_coerce_slide [simp]: "valid_slide (coerce_slide s) = valid_slide s"
  by (simp add: valid_slide_def)

lemma bulleted_coerce_slide: "bulleted_slide (coerce_slide s)"
  by (simp add: bulleted_slide_def coerce_slide_def coerce_text_bulleted)

lemma has_flow_coerce [simp]: "has_flow (map coerce_slide ss) = has_flow ss"
  by (simp add: has_flow_def list_ex_iff)

lemma bulleted_flow: "slide_type x = Flow \<Longrightarrow> bulleted_slide x"
  by (simp add: bulleted_slide_def)

lemma has_flow_eq: "has_flow ss = flow_with_diagram ss"
  by (simp add: has_flow_def flow_with_diagram_def)

lemma has_flow_update:
  "m < length ss \<Longrightarrow> slide_type x = Flow \<Longrightarrow> diagram x = Some d \<Longrightarrow> has_flow (ss[m := x])"
  unfolding has_flow_def list_ex_iff using set_update_memI[of m ss x] by auto

subsection \<open>The repaired list of slides\<close>

lemma base_list:
  fixes topic :: pystr
  assumes "ss \<noteq> []" "1 \<le> n"
  defines "b \<equiv> pad_slides (if n < int (length ss) then py_take n ss else ss) topic n"
  shows "length b = nat n" "b ! 0 = ss ! 0"
    "list_all valid_slide ss \<Longrightarrow> list_all valid_slide b"
    "b ! (nat n - 1) = (if nat n \<le> length ss then ss ! (nat n - 1) else pad_slide topic (nat n - 1))"
proof -
  have pos: "0 < length ss" using assms(1) by simp
  show "length b = nat n"
    using assms(2) pos by (auto simp: b_def length_pad_slides py_take_def)
  show "b ! 0 = ss ! 0"
    using assms(2) pos by (auto simp: b_def pad_slides_eq py_take_def nth_append)
  show "list_all valid_slide b" if v: "list_all valid_slide ss"
  proof -
    have "list_all valid_slide (if n < int (length ss) then py_take n ss else ss)"
      using v by (simp add: list_all_py_take)
    then show ?thesis
      unfolding b_def pad_slides_eq by (auto simp: list_all_iff valid_pad_slide)
  qed
  show "b ! (nat n - 1) = (if nat n \<le> length ss then ss ! (nat n - 1) else pad_slide topic (nat n - 1))"
  proof (cases "n < int (length ss)")
    case True
    then have "b = take (nat n) ss" using assms(2) by (simp add: b_def pad_slides_eq py_take_def)
    then show ?thesis using True assms(2) by simp
  next
    case False
    then have b: "b = ss @ map (pad_slide topic) [length ss ..< nat n]"
      by (simp add: b_def pad_slides_eq)
    show ?thesis
    proof (cases "nat n \<le> length ss")
      case True
      then have "nat n = length ss" using False by linarith
      then show ?thesis using b pos by (simp add: nth_append)
    next
      case gt: False
      then have "\<not> nat n - 1 < length ss" by linarith
      moreover have "nat n - 1 - length ss < nat n - length ss" using gt by linarith
      moreover have "length ss + (nat n - 1 - length ss) = nat n - 1" using gt by linarith
      ultimately show ?thesis using b gt by (simp add: nth_append)
    qed
  qed
qed

lemma force_summary_eq:
  "ss \<noteq> [] \<Longrightarrow>
   force_summary ss = Inr (ss[length ss - 1 :=
     (if slide_type (ss ! (length ss - 1)) \<noteq> Summary
      then (ss ! (length ss - 1))\<lparr>slide_type := Summary, title := ustr ''Summary''\<rparr>
      else ss ! (length ss - 1))])"
  by (simp add: force_summary_def Let_def)

lemma coerce_slide_other:
  "slide_type s = Intro \<or> slide_type s = Flow \<Longrightarrow> coerce_slide s = s"
  by (auto simp: coerce_slide_def)

lemma repair_slides_shape:
  fixes topic :: pystr
  assumes "ss \<noteq> []" "3 \<le> n"
  defines "b \<equiv> pad_slides (if n < int (length ss) then py_take n ss else ss) topic n"
  defines "y \<equiv> (if slide_type (b ! (nat n - 1)) \<noteq> Summary
                 then (b ! (nat n - 1))\<lparr>slide_type := Summary, title := ustr ''Summary''\<rparr>
                 else b ! (nat n - 1))"
  shows "\<exists>s6. repair_slides ss topic n = Inr s6 \<and> length s6 = nat n
      \<and> s6 ! 0 = (ss ! 0)\<lparr>slide_type := Intro\<rparr>
      \<and> s6 ! (nat n - 1) = coerce_slide y
      \<and> flow_with_diagram s6
      \<and> list_all bulleted_slide s6
      \<and> (list_all valid_slide ss \<longrightarrow> list_all valid_slide s6)"
proof -
  have n1: "1 \<le> n" using assms(2) by simp
  note bl = base_list[OF assms(1) n1, of topic, folded b_def]
  have len: "length b = nat n" by (rule bl(1))
  have n3: "3 \<le> nat n" using assms(2) by linarith
  have bne: "b \<noteq> []" using len n3 by auto
  define s3 where "s3 = b[0 := (b ! 0)\<lparr>slide_type := Intro\<rparr>]"
  have f3: "force_intro b = Inr s3" unfolding s3_def by (rule force_intro_eq[OF bne])
  have len3: "length s3 = nat n" by (simp add: s3_def len)
  have s3ne: "s3 \<noteq> []" using len3 n3 by auto
  have s3k: "s3 ! (nat n - 1) = b ! (nat n - 1)" using n3 by (simp add: s3_def)
  define s4 where "s4 = s3[nat n - 1 := y]"
  have f4: "force_summary s3 = Inr s4"
    using force_summary_eq[OF s3ne] unfolding len3 s3k s4_def y_def .
  have len4: "length s4 = nat n" by (simp add: s4_def len3)
  have s40: "s4 ! 0 = (ss ! 0)\<lparr>slide_type := Intro\<rparr>"
    using n3 bne by (simp add: s4_def s3_def bl(2))
  have s4k: "s4 ! (nat n - 1) = y" using n3 by (simp add: s4_def len3)
  define s5 where "s5 = map coerce_slide s4"
  have len5: "length s5 = nat n" by (simp add: s5_def len4)
  have rep: "repair_slides ss topic n = ensure_flow s5"
    unfolding repair_slides_def Let_def b_def[symmetric] by (simp add: f3 f4 s5_def)
  have s50: "s5 ! 0 = (ss ! 0)\<lparr>slide_type := Intro\<rparr>"
    using n3 by (simp add: s5_def len4 s40 coerce_slide_other)
  have s5k: "s5 ! (nat n - 1) = coerce_slide y"
    using n3 s4k by (simp add: s5_def len4)
  have bul5: "list_all bulleted_slide s5"
    by (simp add: s5_def list_all_iff bulleted_coerce_slide)
  have val5: "list_all valid_slide s5" if v: "list_all valid_slide ss"
  proof -
    have vb: "list_all valid_slide b" by (rule bl(3)[OF v])
    have "valid_slide (b ! 0)" using vb bne by (simp add: list_all_iff)
    then have "valid_slide ((b ! 0)\<lparr>slide_type := Intro\<rparr>)" by (simp add: valid_slide_def)
    then have v3: "list_all valid_slide s3" unfolding s3_def by (rule list_all_update[OF vb])
    have "valid_slide (b ! (nat n - 1))" using vb len n3 by (simp add: list_all_iff)
    then have "valid_slide y" by (simp add: y_def valid_slide_def)
    then have "list_all valid_slide s4" unfolding s4_def by (rule list_all_update[OF v3])
    then show ?thesis by (simp add: s5_def list_all_iff)
  qed
  have l2: "2 \<le> length s5" using len5 n3 by simp
  from ensure_flow_cases[OF l2]
  show ?thesis
  proof
    assume c: "ensure_flow s5 = Inr s5 \<and> has_flow s5"
    then show ?thesis using rep len5 s50 s5k bul5 val5 by (simp add: has_flow_eq)
  next
    assume "\<exists>m x. ensure_flow s5 = Inr (s5[m := x]) \<and> 1 \<le> m \<and> m < length s5
              \<and> (3 \<le> length s5 \<longrightarrow> m < length s5 - 1)
              \<and> slide_type x = Flow \<and> diagram x = Some basic_diagram"
    then obtain m x where e: "ensure_flow s5 = Inr (s5[m := x])" and m1: "1 \<le> m"
      and m2: "m < length s5" and m3: "m < length s5 - 1"
      and xt: "slide_type x = Flow" and xd: "diagram x = Some basic_diagram"
      using len5 n3 by auto
    have a: "repair_slides ss topic n = Inr (s5[m := x])" using rep e by simp
    have b0: "(s5[m := x]) ! 0 = (ss ! 0)\<lparr>slide_type := Intro\<rparr>" using m1 s50 by simp
    have bk: "(s5[m := x]) ! (nat n - 1) = coerce_slide y" using m3 len5 s5k by simp
    have fl: "flow_with_diagram (s5[m := x])"
      using has_flow_update[OF m2 xt xd] by (simp add: has_flow_eq)
    have bu: "list_all bulleted_slide (s5[m := x])"
      by (rule list_all_update[OF bul5 bulleted_flow[OF xt]])
    have va: "list_all valid_slide (s5[m := x])" if v: "list_all valid_slide ss"
      by (rule list_all_update[OF val5[OF v] valid_basic[OF xd]])
    show ?thesis using a b0 bk fl bu va len5 by simp
  qed
qed

subsection \<open>What the normaliser returns\<close>

lemma repair_slides_returns:
  assumes "ss \<noteq> []" "2 \<le> n"
  shows "\<exists>s6. repair_slides ss topic n = Inr s6"
proof -
  have n1: "1 \<le> n" using assms(2) by simp
  define b where "b = pad_slides (if n < int (length ss) then py_take n ss else ss) topic n"
  have len: "length b = nat n" unfolding b_def by (rule base_list(1)[OF assms(1) n1])
  have bne: "b \<noteq> []" using len assms(2) by auto
  define s3 where "s3 = b[0 := (b ! 0)\<lparr>slide_type := Intro\<rparr>]"
  have f3: "force_intro b = Inr s3" unfolding s3_def by (rule force_intro_eq[OF bne])
  have s3ne: "s3 \<noteq> []" using bne by (simp add: s3_def)
  obtain y where f4: "force_summary s3 = Inr (s3[length s3 - 1 := y])"
    using force_summary_cases[OF s3ne] by blast
  have "2 \<le> length (map coerce_slide (s3[length s3 - 1 := y]))"
    using len assms(2) by (simp add: s3_def)
  from ensure_flow_cases[OF this]
  obtain s6 where "ensure_flow (map coerce_slide (s3[length s3 - 1 := y])) = Inr s6" by blast
  then show ?thesis
    unfolding repair_slides_def Let_def b_def[symmetric] by (simp add: f3 f4)
qed

lemma model_validate_Inr:
  "model_validate p = Inr q \<Longrightarrow> q = p \<and> slides p \<noteq> [] \<and> list_all valid_slide (slides p)"
  by (simp add: model_validate_def split: if_splits)

lemma normalize_mock:
  "spec = None \<or> (\<exists>sp. spec = Some sp \<and> slides sp = []) \<Longrightarrow>
   normalize_presentation_spec spec topic n = model_validate (mock_presentation topic n)"
  by (auto simp: normalize_presentation_spec_def)

text \<open>What the normaliser returns, when the repair returns: the repaired deck or the fallback.\<close>

lemma normalize_repaired:
  assumes "slides sp \<noteq> []" "repair_slides (slides sp) topic n = Inr s6"
  shows "normalize_presentation_spec (Some sp) topic n =
     (if list_all valid_slide s6 \<and> s6 \<noteq> []
      then Inr \<lparr>deck_title = (if deck_title sp \<noteq> [] then deck_title sp else topic), slides = s6\<rparr>
      else model_validate (mock_presentation topic n))"
  using assms by (auto simp: normalize_presentation_spec_def model_validate_def)


lemma four_invariants_repaired:
  assumes "ss \<noteq> []" "3 \<le> n" "repair_slides ss topic n = Inr s6"
  shows "four_invariants \<lparr>deck_title = t, slides = s6\<rparr> n" "list_all bulleted_slide s6"
    "s6 \<noteq> []" "list_all valid_slide ss \<Longrightarrow> list_all valid_slide s6"
proof -
  from repair_slides_shape[OF assms(1,2), of topic] assms(3)
  have len: "length s6 = nat n"
    and s0: "s6 ! 0 = (ss ! 0)\<lparr>slide_type := Intro\<rparr>"
    and sk: "\<exists>y. s6 ! (nat n - 1) = coerce_slide y \<and> slide_type y = Summary"
    and fl: "flow_with_diagram s6" and bu: "list_all bulleted_slide s6"
    and va: "list_all valid_slide ss \<longrightarrow> list_all valid_slide s6"
    by auto
  have ne: "s6 \<noteq> []" using len assms(2) by auto
  have "slide_type (hd s6) = Intro" using ne s0 by (simp add: hd_conv_nth)
  moreover have "slide_type (last s6) = Summary" using ne sk len by (auto simp: last_conv_nth)
  moreover have "int (length s6) = n" using len assms(2) by simp
  ultimately show "four_invariants \<lparr>deck_title = t, slides = s6\<rparr> n"
    using fl by (simp add: four_invariants_def)
  show "list_all bulleted_slide s6" by (rule bu)
  show "s6 \<noteq> []" by (rule ne)
  show "list_all valid_slide s6" if "list_all valid_slide ss" using that va by simp
qed

text \<open>
  What is known of the result for three slides or more: the structure when the count is at
  least four or the document is a valid one, the bullets when the document is a valid one.
\<close>

lemma normalize_output:
  assumes "3 \<le> n"
  shows "\<exists>p. normalize_presentation_spec spec topic n = Inr p
      \<and> slides p \<noteq> [] \<and> list_all valid_slide (slides p)
      \<and> (deck_title p \<noteq> [] \<or> topic = [])
      \<and> (4 \<le> n \<or> repairable spec \<longrightarrow> four_invariants p n)
      \<and> (repairable spec \<longrightarrow> list_all bulleted_slide (slides p))"
proof -
  have n1: "1 \<le> n" and n2: "2 \<le> n" using assms by simp_all
  let ?m = "mock_presentation topic n"
  have mock: "model_validate ?m = Inr ?m" by (rule mock_validates[OF n1])
  have mv: "slides ?m \<noteq> [] \<and> list_all valid_slide (slides ?m)"
    using model_validate_Inr[OF mock] by simp
  have mt: "deck_title ?m \<noteq> [] \<or> topic = []" by (auto simp: mock_presentation_def)
  have m4: "4 \<le> n \<longrightarrow> four_invariants ?m n" using mock_four_invariants by blast
  show ?thesis
  proof (cases "spec = None \<or> (\<exists>sp. spec = Some sp \<and> slides sp = [])")
    case True
    then have "\<not> repairable spec" by (auto simp: repairable_def)
    then show ?thesis using normalize_mock[OF True, of topic n] mock mv mt m4 by simp
  next
    case False
    then obtain sp where sp: "spec = Some sp" "slides sp \<noteq> []" by (cases spec) auto
    obtain s6 where r: "repair_slides (slides sp) topic n = Inr s6"
      using repair_slides_returns[OF sp(2) n2] by blast
    note fi = four_invariants_repaired[OF sp(2) assms r]
    let ?t = "if deck_title sp \<noteq> [] then deck_title sp else topic"
    show ?thesis
    proof (cases "list_all valid_slide s6")
      case True
      then have "normalize_presentation_spec spec topic n = Inr \<lparr>deck_title = ?t, slides = s6\<rparr>"
        unfolding sp(1) normalize_repaired[OF sp(2) r] using fi(3) by simp
      moreover have "deck_title \<lparr>deck_title = ?t, slides = s6\<rparr> \<noteq> [] \<or> topic = []" by simp
      ultimately show ?thesis using fi(1)[of ?t] fi(2,3) True by simp
    next
      case False
      then have nr: "\<not> repairable spec" using fi(4) by (auto simp: repairable_def sp(1))
      have "normalize_presentation_spec spec topic n = Inr ?m"
        unfolding sp(1) normalize_repaired[OF sp(2) r] using False mock by simp
      then show ?thesis using nr mv mt m4 by simp
    qed
  qed
qed

subsection \<open>Normalising again\<close>

lemma join_split_on: "join [c] (split_on c s) = s"
proof (induction s)
  case Nil
  then show ?case by simp
next
  case (Cons x s)
  show ?case
  proof (cases "x = c")
    case True
    then show ?thesis using Cons split_on_ne[of c s] by (simp add: join_Cons_ne)
  next
    case False
    obtain l ls where l: "split_on c s = l # ls" using split_on_ne[of c s] by (cases "split_on c s") auto
    then show ?thesis using Cons False by (auto simp: join_Cons_ne split: if_splits)
  qed
qed

lemma join_last_ne: "xs \<noteq> [] \<Longrightarrow> last xs \<noteq> [] \<Longrightarrow> join sep xs \<noteq> []"
  by (induction sep xs rule: join.induct) auto

lemma last_join:
  "xs \<noteq> [] \<Longrightarrow> last xs \<noteq> [] \<Longrightarrow> last (join sep xs) = last (last xs)"
proof (induction sep xs rule: join.induct)
  case (1 sep)
  then show ?case by simp
next
  case (2 sep x)
  then show ?case by simp
next
  case (3 sep x y ys)
  have "join sep (y # ys) \<noteq> []" using 3(3) by (intro join_last_ne) simp_all
  then show ?case using 3 by simp
qed

lemma join_ne: "x \<noteq> [] \<Longrightarrow> join sep (x # xs) \<noteq> []"
  by (cases xs) auto

lemma replace_bullet_sp_id: "no_bullet_sp l \<Longrightarrow> replace_bullet_sp l = l"
  by (induction l rule: replace_bullet_sp.induct) auto

lemma settled_line_facts:
  assumes "settled_line l"
  shows "l \<noteq> []" "hd l = HYPHEN" "\<not> isspace (last l)" "strip l = l" "fix_line l = l"
proof -
  from assms have t: "take 2 l = [HYPHEN, SP]" and la: "\<not> isspace (last l)"
    and nb: "no_bullet_sp l" by (simp_all add: settled_line_def)
  from t show ne: "l \<noteq> []" by auto
  from t show hd: "hd l = HYPHEN" by (cases l) auto
  show "\<not> isspace (last l)" by (rule la)
  show "strip l = l" using ne hd la not_isspace_HYPHEN by (simp add: strip_id)
  show "fix_line l = l" using t nb by (simp add: fix_line_def replace_bullet_sp_id)
qed

lemma coerce_text_settled:
  assumes "settled_bullets c"
  shows "coerce_text c = c"
proof -
  let ?ls = "split_on NL c"
  from assms have l2: "2 \<le> length ?ls" and l8: "length ?ls \<le> 8"
    and all: "\<forall>l \<in> set ?ls. settled_line l"
    by (simp_all add: settled_bullets_def list_all_iff)
  have j: "join [NL] ?ls = c" by (rule join_split_on)
  obtain x xs where xs: "?ls = x # xs" using l2 by (cases ?ls) auto
  have x: "settled_line x" using all xs by simp
  have lastl: "settled_line (last ?ls)" using all xs by (metis last_in_set list.distinct(1))
  have cne: "c \<noteq> []" using j xs join_ne[OF settled_line_facts(1)[OF x]] by metis
  have "hd c = hd x" using j xs hd_join[OF settled_line_facts(1)[OF x], of "[NL]" xs] by simp
  then have hdc: "\<not> isspace (hd c)" using settled_line_facts(2)[OF x] not_isspace_HYPHEN by simp
  have "last c = last (last ?ls)"
    using last_join[of ?ls "[NL]"] settled_line_facts(1)[OF lastl] xs j by simp
  then have lac: "\<not> isspace (last c)" using settled_line_facts(3)[OF lastl] by simp
  have st: "strip c = c" by (rule strip_id[OF cne hdc lac])
  have nl: "NL \<in> set c"
  proof (rule ccontr)
    assume "NL \<notin> set c"
    then have "?ls = [c]" by (rule split_on_single)
    then show False using l2 by simp
  qed
  have sp: "split_paragraph c = c"
    using st cne nl by (simp add: split_paragraph_def Let_def)
  have m: "map strip ?ls = ?ls"
    by (rule map_idI) (use all settled_line_facts(4) in blast)
  have f: "filter (\<lambda>l. l \<noteq> []) ?ls = ?ls"
    using all settled_line_facts(1) by (simp add: filter_id_conv)
  have t: "take 8 ?ls = ?ls" using l8 by simp
  have fx: "map fix_line ?ls = ?ls"
    by (rule map_idI) (use all settled_line_facts(5) in blast)
  show ?thesis
    unfolding coerce_text_alt sp m f t fx by (rule j)
qed



text \<open>
  Normalising a deck that has the structure again: the repair finds nothing to truncate,
  pad, or force, and only runs the bullet coercion once more.
\<close>

lemma renormalize:
  assumes "3 \<le> n" "four_invariants p n" "list_all valid_slide (slides p)"
    "deck_title p \<noteq> [] \<or> topic = []"
  shows "normalize_presentation_spec (Some p) topic n
       = Inr (p\<lparr>slides := map coerce_slide (slides p)\<rparr>)"
proof -
  let ?ss = "slides p"
  from assms(2) have len: "int (length ?ss) = n" and h: "slide_type (hd ?ss) = Intro"
    and l: "slide_type (last ?ss) = Summary" and fl: "flow_with_diagram ?ss"
    by (simp_all add: four_invariants_def)
  have ne: "?ss \<noteq> []" using len assms(1) by auto
  have pad: "pad_slides ?ss topic n = ?ss" using len by (simp add: pad_slides_eq)
  have fi: "force_intro ?ss = Inr ?ss" using ne h by (simp add: force_intro_def hd_conv_nth)
  have fs: "force_summary ?ss = Inr ?ss"
    using ne l by (simp add: force_summary_def Let_def last_conv_nth)
  have ef: "ensure_flow (map coerce_slide ?ss) = Inr (map coerce_slide ?ss)"
    using fl by (simp add: ensure_flow_def has_flow_eq[symmetric])
  have r: "repair_slides ?ss topic n = Inr (map coerce_slide ?ss)"
    unfolding repair_slides_def Let_def using len by (simp add: pad fi fs ef)
  have v: "list_all valid_slide (map coerce_slide ?ss)"
    using assms(3) by (simp add: list_all_iff)
  have "normalize_presentation_spec (Some p) topic n =
      Inr \<lparr>deck_title = (if deck_title p \<noteq> [] then deck_title p else topic),
           slides = map coerce_slide ?ss\<rparr>"
    unfolding normalize_repaired[OF ne r] using v ne by simp
  moreover have "\<lparr>deck_title = (if deck_title p \<noteq> [] then deck_title p else topic),
           slides = map coerce_slide ?ss\<rparr> = p\<lparr>slides := map coerce_slide ?ss\<rparr>"
    using assms(4) by (cases p) auto
  ultimately show ?thesis by simp
qed

subsection \<open>The example documents\<close>

lemma no_bullet_sp_plain: "BULLET \<notin> set l \<Longrightarrow> no_bullet_sp l"
  by (induction l rule: no_bullet_sp.induct) auto

text \<open>A single line without a period or a bullet character only gets the prefix.\<close>

lemma coerce_text_line:
  assumes "w \<noteq> []" "\<not> isspace (hd w)" "\<not> isspace (last w)"
    "NL \<notin> set w" "PERIOD \<notin> set w" "BULLET \<notin> set w"
  shows "coerce_text w = [HYPHEN, SP] @ w"
proof -
  let ?t = "[HYPHEN, SP] @ w"
  have st: "strip w = w" by (rule strip_id[OF assms(1,2,3)])
  have fb: "filter (\<lambda>x. x \<noteq> BULLET) w = w" using assms(6) by (auto simp: filter_id_conv)
  have sp: "split_on PERIOD w = [w]" by (rule split_on_single[OF assms(5)])
  have par: "split_paragraph w = ?t"
    using assms(1,4) by (simp add: split_paragraph_def Let_def st fb sp)
  have "NL \<notin> set ?t" using assms(4) HYPHEN_ne_NL(1,2) by auto
  then have sl: "split_on NL ?t = [?t]" by (rule split_on_single)
  have "\<not> isspace (last ?t)" using assms(1,3) by simp
  then have st2: "strip ?t = ?t" using not_isspace_HYPHEN by (intro strip_id) simp_all
  have "BULLET \<notin> set ?t" using assms(6) HYPHEN_ne_NL(3,4) by auto
  then have "replace_bullet_sp ?t = ?t" by (intro replace_bullet_sp_id no_bullet_sp_plain)
  then have fx: "fix_line ?t = ?t" by (simp add: fix_line_def)
  show ?thesis unfolding coerce_text_alt par sl using st2 fx by simp
qed

lemma framed_deck_normal:
  "normalize_presentation_spec (Some (framed_deck c)) topic 3 = Inr (framed_deck (coerce_text c))"
proof -
  have fi: "four_invariants (framed_deck c) 3"
    by (simp add: four_invariants_def framed_deck_def slide_of_def flow_with_diagram_def)
  have va: "list_all valid_slide (slides (framed_deck c))"
    by (simp add: framed_deck_def slide_of_def valid_slide_def mock_diagram_def)
  have ti: "deck_title (framed_deck c) \<noteq> [] \<or> topic = []"
    by (simp add: framed_deck_def ustr_def)
  have "normalize_presentation_spec (Some (framed_deck c)) topic 3
      = Inr ((framed_deck c)\<lparr>slides := map coerce_slide (slides (framed_deck c))\<rparr>)"
    by (rule renormalize[OF _ fi va ti]) simp
  also have "(framed_deck c)\<lparr>slides := map coerce_slide (slides (framed_deck c))\<rparr>
      = framed_deck (coerce_text c)"
    by (simp add: framed_deck_def slide_of_def coerce_slide_def)
  finally show ?thesis .
qed

lemma coerce_long_word:
  "coerce_text (replicate 130 120) = [HYPHEN, SP] @ replicate 130 120"
  by (rule coerce_text_line)
     (simp_all add: isspace_def NL_def PERIOD_def BULLET_def)


lemma mock_three:
  "slides (mock_presentation topic 3) = mock_base topic"
  by (simp add: mock_presentation_def mock_all_eq py_take_def length_mock_base)

lemma not_bulleted_mock:
  "\<not> hyphen_bulleted (ustr ''Identify inputs, steps, and outputs. Then connect them logically.'')"
proof -
  have "NL \<notin> set (ustr ''Identify inputs, steps, and outputs. Then connect them logically.'')"
    by (simp add: ustr_def NL_def)
  from split_on_single[OF this] show ?thesis
    by (simp add: hyphen_bulleted_def) (simp add: ustr_def HYPHEN_def)
qed

lemma settled_key_points: "settled_bullets key_points"
proof -
  have "split_on NL key_points = [ustr ''- Key point'', ustr ''- Key point'', ustr ''- Key point'', ustr ''- Key point'']"
    by (simp add: key_points_def ustr_def NL_def)
  then show ?thesis
    by (simp add: settled_bullets_def settled_line_def)
       (simp add: ustr_def HYPHEN_def SP_def isspace_def BULLET_def)
qed

subsection \<open>The claims on the normaliser\<close>

lemma repairable_one_bullet: "repairable (Some one_bullet_deck)"
  by (simp add: repairable_def one_bullet_deck_def slide_of_def valid_slide_def)






text \<open>
  Claim C1, as it holds. For a slide count of three or more the function returns a deck.
  When the document is a valid one (not none, at least one slide, no diagram without
  nodes) the deck has exactly the requested number of slides, an intro first, a summary
  last, a flow slide with a diagram, and every process or summary content is a list of at
  most eight lines that each start with a hyphen and a space; nothing bounds the length
  of a line. For every document, valid or not, the deck has the four structural properties
  from a count of four on (it may then be the fallback deck, which is not bullet-coerced).
\<close>

theorem normalize_invariants:
  assumes "3 \<le> n"
  shows "\<exists>p. normalize_presentation_spec spec topic n = Inr p
      \<and> (repairable spec \<longrightarrow> four_invariants p n \<and> list_all bulleted_slide (slides p))
      \<and> (4 \<le> n \<longrightarrow> four_invariants p n)"
  using normalize_output[OF assms, of spec topic] by blast

theorem normalize_invariants_witness:
  "(3::int) \<le> 3 \<and> repairable (Some one_bullet_deck)
   \<and> (\<exists>p. normalize_presentation_spec (Some one_bullet_deck) (ustr ''Photosynthesis'') 3 = Inr p
          \<and> four_invariants p 3 \<and> list_all bulleted_slide (slides p))
   \<and> (3::int) \<le> 6 \<and> (4::int) \<le> 6
   \<and> (\<exists>p. normalize_presentation_spec None (ustr ''Photosynthesis'') 6 = Inr p
          \<and> four_invariants p 6)"
  using normalize_invariants[of 3 "Some one_bullet_deck" "ustr ''Photosynthesis''"]
    normalize_invariants[of 6 None "ustr ''Photosynthesis''"] repairable_one_bullet
  by auto

text \<open>
  Claim C1 as worded fails in four ways. With no document the fallback deck is returned as
  it is, and its process slide holds a paragraph, not bullets (count 6); for a count of 3
  the fallback deck is cut before its summary and ends with the flow slide. A summary that
  is one word of 130 characters becomes one bullet of 132 characters: no step shortens a
  line. And for a count of 2 the flow slide is put on the last slide, over the summary.
\<close>

theorem normalize_breaks_invariants:
  "returns (normalize_presentation_spec None (ustr ''Photosynthesis'') 6)
   \<and> \<not> five_invariants (normalize_presentation_spec None (ustr ''Photosynthesis'') 6) 6
   \<and> returns (normalize_presentation_spec None (ustr ''Photosynthesis'') 3)
   \<and> \<not> five_invariants (normalize_presentation_spec None (ustr ''Photosynthesis'') 3) 3
   \<and> returns (normalize_presentation_spec (Some (framed_deck (replicate 130 120))) (ustr ''Photosynthesis'') 3)
   \<and> \<not> five_invariants
         (normalize_presentation_spec (Some (framed_deck (replicate 130 120))) (ustr ''Photosynthesis'') 3) 3
   \<and> returns (normalize_presentation_spec (Some one_bullet_deck) (ustr ''Photosynthesis'') 2)
   \<and> \<not> five_invariants
         (normalize_presentation_spec (Some one_bullet_deck) (ustr ''Photosynthesis'') 2) 2"
proof -
  let ?P = "ustr ''Photosynthesis''"
  have m6: "normalize_presentation_spec None ?P 6 = Inr (mock_presentation ?P 6)"
    by (simp add: normalize_presentation_spec_def mock_validates)
  have "\<not> list_all bulleted_slide (slides (mock_presentation ?P 6))"
    using not_bulleted_mock
    by (simp add: mock_slides_ge4 mock_base_def slide_of_def bulleted_slide_def)
  then have a: "\<not> five_invariants (normalize_presentation_spec None ?P 6) 6"
    by (simp add: m6 five_invariants_def)
  have m3: "normalize_presentation_spec None ?P 3 = Inr (mock_presentation ?P 3)"
    by (simp add: normalize_presentation_spec_def mock_validates)
  have "\<not> four_invariants (mock_presentation ?P 3) 3"
    by (simp add: four_invariants_def mock_three mock_base_def slide_of_def)
  then have b: "\<not> five_invariants (normalize_presentation_spec None ?P 3) 3"
    by (simp add: m3 five_invariants_def)
  have "NL \<notin> set ([HYPHEN, SP] @ replicate 130 120)" by (simp add: NL_def HYPHEN_def SP_def)
  from split_on_single[OF this]
  have "\<not> bullets_at_most 120 (coerce_text (replicate 130 120))"
    unfolding coerce_long_word by (simp add: bullets_at_most_def)
  then have "\<not> list_all bounded_slide (slides (framed_deck (coerce_text (replicate 130 120))))"
    by (simp add: framed_deck_def slide_of_def bounded_slide_def)
  then have c: "\<not> five_invariants
      (normalize_presentation_spec (Some (framed_deck (replicate 130 120))) ?P 3) 3"
    by (simp add: framed_deck_normal five_invariants_def)
  have ne: "slides one_bullet_deck \<noteq> []" by (simp add: one_bullet_deck_def)
  have up: "[Suc 0 ..< 2] = [1]" by (simp add: upt_rec)
  have r: "repair_slides (slides one_bullet_deck) ?P 2 =
      Inr [slide_of Intro (ustr ''Only'') (ustr ''Step one. Step two. Step three.'') [] None,
           slide_of Flow (ustr ''Process Flow'') key_points
             [?P, ustr ''steps'', ustr ''process'', ustr ''overview''] (Some basic_diagram)]"
    by (simp add: repair_slides_def one_bullet_deck_def pad_slides_eq up force_intro_def
          force_summary_def Let_def pad_slide_def slide_of_def coerce_slide_def
          coerce_text_settled[OF settled_key_points] ensure_flow_def has_flow_def)
  have d2: "normalize_presentation_spec (Some one_bullet_deck) ?P 2 =
      Inr \<lparr>deck_title = ustr ''Deck'',
           slides = [slide_of Intro (ustr ''Only'') (ustr ''Step one. Step two. Step three.'') [] None,
                     slide_of Flow (ustr ''Process Flow'') key_points
                       [?P, ustr ''steps'', ustr ''process'', ustr ''overview''] (Some basic_diagram)]\<rparr>"
    unfolding normalize_repaired[OF ne r]
    by (simp add: slide_of_def valid_slide_def basic_diagram_def one_bullet_deck_def ustr_def)
  have d: "\<not> five_invariants (normalize_presentation_spec (Some one_bullet_deck) ?P 2) 2"
    unfolding d2 by (simp add: five_invariants_def four_invariants_def slide_of_def)
  show ?thesis using a b c d m6 m3 d2 by (simp add: returns_def framed_deck_normal)
qed




text \<open>
  Claim C9. The two steps on a non-empty list of slides (on an empty one each raises
  \<open>IndexError\<close>): slide 0, when its role is not intro, is replaced by itself with the role
  intro and nothing else changed, and the last slide, when its role is not summary, by
  itself with the role summary and the title \<open>Summary\<close> and nothing else changed; every
  other slide is kept. And in the deck that the function returns for a valid document of
  at least as many slides as requested, three or more: slide 0 is slide 0 of the document
  with the role intro, and the last slide is slide \<open>n - 1\<close> of the document with the role
  summary and the title \<open>Summary\<close> (or that slide itself when it was a summary), up to its
  content, which the later bullet coercion rewrites.
\<close>

theorem intro_and_summary_forced:
  "force_intro ss =
     (if ss = [] then Inl IndexError
      else if slide_type (ss ! 0) \<noteq> Intro
           then Inr ((ss ! 0)\<lparr>slide_type := Intro\<rparr> # tl ss)
           else Inr ss)
   \<and> force_summary ss =
     (if ss = [] then Inl IndexError
      else if slide_type (last ss) \<noteq> Summary
           then Inr (butlast ss @ [(last ss)\<lparr>slide_type := Summary, title := ustr ''Summary''\<rparr>])
           else Inr ss)
   \<and> (repairable (Some sp) \<and> 3 \<le> n \<and> n \<le> int (length (slides sp)) \<longrightarrow>
        (\<exists>p. normalize_presentation_spec (Some sp) topic n = Inr p
           \<and> hd (slides p) = (hd (slides sp))\<lparr>slide_type := Intro\<rparr>
           \<and> (last (slides p))\<lparr>content := content (slides sp ! (nat n - 1))\<rparr> =
               (if slide_type (slides sp ! (nat n - 1)) \<noteq> Summary
                then (slides sp ! (nat n - 1))\<lparr>slide_type := Summary, title := ustr ''Summary''\<rparr>
                else slides sp ! (nat n - 1))))"
proof (intro conjI impI)
  show "force_intro ss =
     (if ss = [] then Inl IndexError
      else if slide_type (ss ! 0) \<noteq> Intro
           then Inr ((ss ! 0)\<lparr>slide_type := Intro\<rparr> # tl ss)
           else Inr ss)"
    by (cases ss) (simp_all add: force_intro_def)
  show "force_summary ss =
     (if ss = [] then Inl IndexError
      else if slide_type (last ss) \<noteq> Summary
           then Inr (butlast ss @ [(last ss)\<lparr>slide_type := Summary, title := ustr ''Summary''\<rparr>])
           else Inr ss)"
  proof (cases "ss = []")
    case True
    then show ?thesis by (simp add: force_summary_def)
  next
    case False
    then obtain xs x where ss: "ss = xs @ [x]" by (metis append_butlast_last_id)
    show ?thesis unfolding ss by (simp add: force_summary_def Let_def)
  qed
next
  assume h: "repairable (Some sp) \<and> 3 \<le> n \<and> n \<le> int (length (slides sp))"
  then have ne: "slides sp \<noteq> []" and va: "list_all valid_slide (slides sp)"
    and n3: "3 \<le> n" and nl: "nat n \<le> length (slides sp)"
    by (auto simp: repairable_def)
  have n1: "1 \<le> n" using n3 by simp
  let ?x = "slides sp ! (nat n - 1)"
  let ?y = "if slide_type ?x \<noteq> Summary
            then ?x\<lparr>slide_type := Summary, title := ustr ''Summary''\<rparr> else ?x"
  have bk: "pad_slides (if n < int (length (slides sp)) then py_take n (slides sp) else slides sp)
              topic n ! (nat n - 1) = ?x"
    using base_list(4)[OF ne n1, of topic] nl by simp
  from repair_slides_shape[OF ne n3, of topic]
  obtain s6 where r: "repair_slides (slides sp) topic n = Inr s6" and len: "length s6 = nat n"
    and s0: "s6 ! 0 = (slides sp ! 0)\<lparr>slide_type := Intro\<rparr>"
    and sk: "s6 ! (nat n - 1) = coerce_slide ?y"
    and v6: "list_all valid_slide s6"
    unfolding bk using va by blast
  have s6ne: "s6 \<noteq> []" using len n3 by auto
  let ?p = "\<lparr>deck_title = (if deck_title sp \<noteq> [] then deck_title sp else topic), slides = s6\<rparr>"
  have p: "normalize_presentation_spec (Some sp) topic n = Inr ?p"
    unfolding normalize_repaired[OF ne r] using v6 s6ne by simp
  have h0: "hd (slides ?p) = (hd (slides sp))\<lparr>slide_type := Intro\<rparr>"
    using s0 s6ne ne by (simp add: hd_conv_nth)
  have "last (slides ?p) = coerce_slide ?y" using sk s6ne len by (simp add: last_conv_nth)
  moreover have "(coerce_slide ?y)\<lparr>content := content ?x\<rparr> = ?y"
    by (simp add: coerce_slide_def)
  ultimately have hl: "(last (slides ?p))\<lparr>content := content ?x\<rparr> = ?y" by simp
  from p h0 hl
  show "\<exists>p. normalize_presentation_spec (Some sp) topic n = Inr p
           \<and> hd (slides p) = (hd (slides sp))\<lparr>slide_type := Intro\<rparr>
           \<and> (last (slides p))\<lparr>content := content (slides sp ! (nat n - 1))\<rparr> =
               (if slide_type (slides sp ! (nat n - 1)) \<noteq> Summary
                then (slides sp ! (nat n - 1))\<lparr>slide_type := Summary, title := ustr ''Summary''\<rparr>
                else slides sp ! (nat n - 1))"
    by blast
qed

theorem intro_and_summary_forced_witness:
  "repairable (Some four_flow_deck) \<and> (3::int) \<le> 4 \<and> (4::int) \<le> int (length (slides four_flow_deck))
   \<and> (\<exists>p. normalize_presentation_spec (Some four_flow_deck) (ustr ''Photosynthesis'') 4 = Inr p
        \<and> hd (slides p) = slide_of Intro (ustr ''A'') (ustr ''a'') [ustr ''k''] (Some mock_diagram)
        \<and> (last (slides p))\<lparr>content := ustr ''d''\<rparr>
             = slide_of Summary (ustr ''Summary'') (ustr ''d'') [ustr ''k''] (Some mock_diagram))"
proof -
  have h: "repairable (Some four_flow_deck) \<and> (3::int) \<le> 4 \<and> (4::int) \<le> int (length (slides four_flow_deck))"
    by (simp add: repairable_def four_flow_deck_def slide_of_def valid_slide_def mock_diagram_def)
  from intro_and_summary_forced[of "[]" four_flow_deck 4 "ustr ''Photosynthesis''"] h
  obtain p where "normalize_presentation_spec (Some four_flow_deck) (ustr ''Photosynthesis'') 4 = Inr p"
    and "hd (slides p) = (hd (slides four_flow_deck))\<lparr>slide_type := Intro\<rparr>"
    and "(last (slides p))\<lparr>content := content (slides four_flow_deck ! (nat 4 - 1))\<rparr> =
               (if slide_type (slides four_flow_deck ! (nat 4 - 1)) \<noteq> Summary
                then (slides four_flow_deck ! (nat 4 - 1))\<lparr>slide_type := Summary, title := ustr ''Summary''\<rparr>
                else slides four_flow_deck ! (nat 4 - 1))"
    by blast
  then show ?thesis using h by (simp add: four_flow_deck_def slide_of_def)
qed

end
